theory Spec2Isabelle
  imports Main
begin

section \<open>The file-source module (modules/files.c)\<close>

subsection \<open>External collaborators\<close>

text \<open>
  The decoder (\<^verbatim>\<open>file.h\<close>) and the output (\<^verbatim>\<open>output.h\<close>) are outside the module. A
  \<^verbatim>\<open>struct file_handle *\<close> and a \<^verbatim>\<open>struct output_stream *\<close> are modelled by the address
  of the object, a natural number; \<^verbatim>\<open>NULL\<close> is \<open>None\<close>.
\<close>

type_synonym file_handle = nat
type_synonym output_stream = nat

text \<open>The tags that \<^verbatim>\<open>file_format_parse\<close> extracts (\<^verbatim>\<open>struct file_format\<close>).\<close>

record file_format =
  title :: string
  artist :: string
  album :: string

text \<open>
  What the collaborators answer during one operation of the module: whether
  \<^verbatim>\<open>file_open\<close> succeeds on a path, whether \<^verbatim>\<open>output_add_stream\<close> returns a stream for
  an opened file, what \<^verbatim>\<open>file_format_parse\<close> returns for a path (\<open>None\<close> is \<^verbatim>\<open>NULL\<close>),
  whether an opened file has reached its end (the test of \<^verbatim>\<open>files_thread\<close>:
  \<^verbatim>\<open>file_get_pos(f) >= file_get_length(f)-1 || file_get_status(f) == FILE_EOF\<close>), and the
  result of \<^verbatim>\<open>file_set_pos\<close>.
\<close>

record env =
  file_open_ok :: "string \<Rightarrow> bool"
  output_add_stream_ok :: "file_handle option \<Rightarrow> bool"
  file_format_parse :: "string \<Rightarrow> file_format option"
  file_at_end :: "file_handle \<Rightarrow> bool"
  file_set_pos :: "file_handle option \<Rightarrow> nat \<Rightarrow> int"

subsection \<open>The handle\<close>

text \<open>\<^verbatim>\<open>struct files_playlist\<close>: the resolved path and the parsed tags.\<close>

record files_playlist =
  filename :: string
  format :: "file_format option"

text \<open>
  \<^verbatim>\<open>struct files_handle\<close>. The field \<open>playlist\<close> holds the first \<^verbatim>\<open>playlist_len\<close> slots
  of the C array, so \<^verbatim>\<open>playlist_len\<close> is its length. \<^verbatim>\<open>is_playing\<close> only ever holds 0
  or 1 and is a \<open>bool\<close>. The field \<^verbatim>\<open>file\<close> is written \<open>file'\<close>. The thread, the mutex
  and the stop flag are left out: each function below is the C function run alone, from
  its call to its return. What the mutex makes atomic, and what requests that overlap
  can do, is the subject of the subsection on overlapping requests. Memory allocation (\<^verbatim>\<open>malloc\<close>, \<^verbatim>\<open>calloc\<close>, \<^verbatim>\<open>realloc\<close>,
  \<^verbatim>\<open>strdup\<close>) is taken to succeed, so the returns on a failed allocation are not
  branches of the model.

  The last four fields are not fields of the C struct. They are the state of the
  collaborators that the module reaches through its pointers: the streams registered
  at the output (\<^verbatim>\<open>h->output\<close>), those of them that are playing, the files that are
  open in the decoder, and the next address the allocator hands out.
\<close>

record files_handle =
  file' :: "file_handle option"
  stream :: "output_stream option"
  prev_file :: "file_handle option"
  prev_stream :: "output_stream option"
  is_playing :: bool
  playlist :: "files_playlist list"
  playlist_alloc :: int
  playlist_cur :: int
  path :: string
  out_streams :: "output_stream set"
  out_playing :: "output_stream set"
  open_files :: "file_handle set"
  next_ptr :: nat

definition playlist_len :: "files_handle \<Rightarrow> int" where
  "playlist_len h = int (length (playlist h))"

definition PLAYLIST_ALLOC_SIZE :: int where
  "PLAYLIST_ALLOC_SIZE = 32"

text \<open>
  The slots of the C array from \<^verbatim>\<open>playlist_len\<close> on hold indeterminate or already
  freed pointers, and the slots before the array are not part of it. Reading the file
  name of such a slot, freeing it, and a \<^verbatim>\<open>memmove\<close> of a negative number of bytes
  (which \<^verbatim>\<open>size_t\<close> turns into a huge one) are undefined behaviour in C. The model
  makes them the outcome \<open>Fault\<close>; \<open>Done\<close> carries what a defined execution returns.
  The C \<^verbatim>\<open>int\<close>s are integers here: the indices stay between \<open>-1\<close> and the length.
\<close>

datatype 'a outcome = Fault | Done 'a

subsection \<open>The primitives of the collaborators\<close>

text \<open>
  \<^verbatim>\<open>output_remove_stream\<close> takes the stream out of the output;
  \<^verbatim>\<open>output_play_stream\<close> and \<^verbatim>\<open>output_pause_stream\<close> set and clear its playing
  state. The module calls the first only behind a test for \<^verbatim>\<open>NULL\<close>; the other two also
  with \<^verbatim>\<open>NULL\<close>, which does nothing.
\<close>

definition output_remove_stream :: "files_handle \<Rightarrow> output_stream \<Rightarrow> files_handle" where
  "output_remove_stream h s =
     h\<lparr>out_streams := out_streams h - {s}, out_playing := out_playing h - {s}\<rparr>"

definition output_play_stream :: "files_handle \<Rightarrow> output_stream option \<Rightarrow> files_handle" where
  "output_play_stream h s =
     (case s of None \<Rightarrow> h
      | Some x \<Rightarrow> h\<lparr>out_playing := out_playing h \<union> ({x} \<inter> out_streams h)\<rparr>)"

definition output_pause_stream :: "files_handle \<Rightarrow> output_stream option \<Rightarrow> files_handle" where
  "output_pause_stream h s =
     (case s of None \<Rightarrow> h | Some x \<Rightarrow> h\<lparr>out_playing := out_playing h - {x}\<rparr>)"

text \<open>
  \<^verbatim>\<open>output_add_stream\<close> registers a new stream and returns it, or returns \<^verbatim>\<open>NULL\<close>.
\<close>

definition output_add_stream ::
  "env \<Rightarrow> files_handle \<Rightarrow> file_handle option \<Rightarrow> output_stream option \<times> files_handle" where
  "output_add_stream e h f =
     (if output_add_stream_ok e f
      then (Some (next_ptr h),
            h\<lparr>out_streams := insert (next_ptr h) (out_streams h), next_ptr := Suc (next_ptr h)\<rparr>)
      else (None, h))"

text \<open>\<^verbatim>\<open>file_close\<close> releases an open file; the module calls it with \<^verbatim>\<open>NULL\<close> too.\<close>

definition file_close :: "files_handle \<Rightarrow> file_handle option \<Rightarrow> files_handle" where
  "file_close h f =
     (case f of None \<Rightarrow> h | Some x \<Rightarrow> h\<lparr>open_files := open_files h - {x}\<rparr>)"

text \<open>
  \<^verbatim>\<open>file_open(&h->file, name)\<close> follows the convention of every \<^verbatim>\<open>open\<close> of the
  repository (\<^verbatim>\<open>files_open\<close> below, and the caller in \<^verbatim>\<open>main\<close>): it allocates the
  object, stores its address through the first argument, and returns non-zero when the
  rest fails, leaving the object to the caller, who closes it.
\<close>

definition file_open :: "env \<Rightarrow> files_handle \<Rightarrow> string \<Rightarrow> int \<times> files_handle" where
  "file_open e h name =
     (if file_open_ok e name then 0 else - 1,
      h\<lparr>file' := Some (next_ptr h),
        open_files := insert (next_ptr h) (open_files h),
        next_ptr := Suc (next_ptr h)\<rparr>)"

subsection \<open>Opening the module\<close>

text \<open>
  \<^verbatim>\<open>files_set_config\<close> stores the string that the configuration holds under
  \<^verbatim>\<open>"path"\<close>, or \<^verbatim>\<open>"/var/aircat/files"\<close> when the configuration is \<^verbatim>\<open>NULL\<close> or has no
  such string (\<open>None\<close>). \<open>files_open\<close> is the handle that \<^verbatim>\<open>files_open\<close> builds, when
  its allocations and the creation of the thread succeed. The functions of the module
  take the handle by value here, so their tests of the pointer for \<^verbatim>\<open>NULL\<close>
  (\<^verbatim>\<open>files_set_config\<close>, \<^verbatim>\<open>files_stop\<close>, \<^verbatim>\<open>files_pause\<close>, \<^verbatim>\<open>files_close\<close>) have no
  counterpart; \<^verbatim>\<open>h->output\<close> is never \<^verbatim>\<open>NULL\<close>.
\<close>

definition files_set_config :: "files_handle \<Rightarrow> string option \<Rightarrow> int \<times> files_handle" where
  "files_set_config h c =
     (0, h\<lparr>path := (case c of Some p \<Rightarrow> p | None \<Rightarrow> ''/var/aircat/files'')\<rparr>)"

definition files_open :: "string option \<Rightarrow> files_handle" where
  "files_open c =
     snd (files_set_config
       \<lparr>file' = None, stream = None, prev_file = None, prev_stream = None,
        is_playing = False, playlist = [], playlist_alloc = PLAYLIST_ALLOC_SIZE,
        playlist_cur = - 1, path = [],
        out_streams = {}, out_playing = {}, open_files = {}, next_ptr = 0\<rparr> c)"

subsection \<open>Starting a player\<close>

definition files_new_player :: "env \<Rightarrow> files_handle \<Rightarrow> (int \<times> files_handle) outcome" where
  "files_new_player e h =
     (if playlist_cur h < 0 \<or> playlist_len h \<le> playlist_cur h then Fault
      else
        (case file_open e h (filename (playlist h ! nat (playlist_cur h))) of
          (r, h1) \<Rightarrow>
            if r \<noteq> 0
            then Done (- 1, (file_close h1 (file' h1))\<lparr>file' := None, stream := None\<rparr>)
            else
              (case output_add_stream e h1 (file' h1) of
                (s, h2) \<Rightarrow> Done (0, output_play_stream (h2\<lparr>stream := s\<rparr>) s))))"

text \<open>The two statements that open \<^verbatim>\<open>files_play_next\<close>, \<^verbatim>\<open>files_play_prev\<close> and that
  follow them in \<^verbatim>\<open>files_next\<close> and \<^verbatim>\<open>files_prev\<close>: remove the previous stream when
  there is one, close the previous file.\<close>

definition close_previous :: "files_handle \<Rightarrow> files_handle" where
  "close_previous h =
     file_close
       (case prev_stream h of None \<Rightarrow> h | Some s \<Rightarrow> output_remove_stream h s)
       (prev_file h)"

text \<open>The loop of \<^verbatim>\<open>files_play_next\<close>.\<close>

function files_play_next_loop :: "env \<Rightarrow> files_handle \<Rightarrow> files_handle outcome" where
  "files_play_next_loop e h =
     (if playlist_cur h \<le> playlist_len h
      then
        (let h1 = h\<lparr>playlist_cur := playlist_cur h + 1\<rparr> in
         if playlist_len h1 \<le> playlist_cur h1
         then Done (h1\<lparr>playlist_cur := - 1, stream := None, file' := None\<rparr>)
         else
           (case files_new_player e h1 of
             Fault \<Rightarrow> Fault
           | Done p \<Rightarrow> if fst p \<noteq> 0 then files_play_next_loop e (snd p) else Done (snd p)))
      else Done h)"
  by pat_completeness auto

lemma files_new_player_keeps:
  assumes "files_new_player e h = Done p"
  shows "playlist_cur (snd p) = playlist_cur h \<and> playlist (snd p) = playlist h
    \<and> playlist_alloc (snd p) = playlist_alloc h \<and> path (snd p) = path h
    \<and> prev_stream (snd p) = prev_stream h \<and> prev_file (snd p) = prev_file h
    \<and> is_playing (snd p) = is_playing h"
  using assms
  by (auto simp: files_new_player_def file_open_def file_close_def output_add_stream_def
      output_play_stream_def split: if_splits option.splits)

termination files_play_next_loop
proof (relation "measure (\<lambda>(e, h). nat (playlist_len h - playlist_cur h))")
  show "wf (measure (\<lambda>(e, h). nat (playlist_len h - playlist_cur h)))"
    by simp
next
  fix e h h1 p
  assume le: "playlist_cur h \<le> playlist_len h"
    and h1: "h1 = h\<lparr>playlist_cur := playlist_cur h + 1\<rparr>"
    and lt: "\<not> playlist_len h1 \<le> playlist_cur h1"
    and np: "files_new_player e h1 = Done p"
  from files_new_player_keeps [OF np] h1
  have "playlist_cur (snd p) = playlist_cur h + 1" "playlist (snd p) = playlist h"
    by simp_all
  with lt h1
  show "((e, snd p), (e, h)) \<in> measure (\<lambda>(e, h). nat (playlist_len h - playlist_cur h))"
    by (simp add: playlist_len_def)
qed

declare files_play_next_loop.simps [simp del]

definition files_play_next :: "env \<Rightarrow> files_handle \<Rightarrow> files_handle outcome" where
  "files_play_next e h =
     files_play_next_loop e
       ((close_previous h)\<lparr>prev_stream := stream h, prev_file := file' h\<rparr>)"

text \<open>The loop of \<^verbatim>\<open>files_play_prev\<close>.\<close>

function files_play_prev_loop :: "env \<Rightarrow> files_handle \<Rightarrow> files_handle outcome" where
  "files_play_prev_loop e h =
     (if 0 \<le> playlist_cur h
      then
        (let h1 = h\<lparr>playlist_cur := playlist_cur h - 1\<rparr> in
         if playlist_cur h1 < 0
         then Done (h1\<lparr>playlist_cur := - 1, stream := None, file' := None\<rparr>)
         else
           (case files_new_player e h1 of
             Fault \<Rightarrow> Fault
           | Done p \<Rightarrow> if fst p \<noteq> 0 then files_play_prev_loop e (snd p) else Done (snd p)))
      else Done h)"
  by pat_completeness auto

termination files_play_prev_loop
proof (relation "measure (\<lambda>(e, h). nat (playlist_cur h + 1))")
  show "wf (measure (\<lambda>(e, h). nat (playlist_cur h + 1)))"
    by simp
next
  fix e h h1 p
  assume ge: "0 \<le> playlist_cur h"
    and h1: "h1 = h\<lparr>playlist_cur := playlist_cur h - 1\<rparr>"
    and np: "files_new_player e h1 = Done p"
  from files_new_player_keeps [OF np] h1
  have "playlist_cur (snd p) = playlist_cur h - 1"
    by simp
  with ge
  show "((e, snd p), (e, h)) \<in> measure (\<lambda>(e, h). nat (playlist_cur h + 1))"
    by simp
qed

declare files_play_prev_loop.simps [simp del]

definition files_play_prev :: "env \<Rightarrow> files_handle \<Rightarrow> files_handle outcome" where
  "files_play_prev e h =
     files_play_prev_loop e
       ((close_previous h)\<lparr>prev_stream := stream h, prev_file := file' h\<rparr>)"

subsection \<open>The watcher\<close>

text \<open>One iteration of the loop of \<^verbatim>\<open>files_thread\<close>, between lock and unlock.\<close>

definition files_thread :: "env \<Rightarrow> files_handle \<Rightarrow> files_handle outcome" where
  "files_thread e h =
     (if playlist_cur h \<noteq> - 1 \<and> playlist_cur h + 1 \<le> playlist_len h
      then
        (case file' h of
          None \<Rightarrow> Done h
        | Some f \<Rightarrow> if file_at_end e f then files_play_next e h else Done h)
      else Done h)"

subsection \<open>The operations on the playlist\<close>

text \<open>\<^verbatim>\<open>files_add\<close>; the file name is \<open>None\<close> for \<^verbatim>\<open>NULL\<close>.\<close>

definition files_add :: "env \<Rightarrow> files_handle \<Rightarrow> string option \<Rightarrow> int \<times> files_handle" where
  "files_add e h name =
     (case name of
       None \<Rightarrow> (- 1, h)
     | Some n \<Rightarrow>
         (let real_path = path h @ ''/'' @ n;
              h1 = (if playlist_len h = playlist_alloc h
                    then h\<lparr>playlist_alloc := playlist_alloc h + PLAYLIST_ALLOC_SIZE\<rparr>
                    else h);
              h2 = h1\<lparr>playlist := playlist h1 @
                     [\<lparr>filename = real_path, format = file_format_parse e real_path\<rparr>]\<rparr>
          in (playlist_len h2 - 1, h2)))"

definition files_stop :: "files_handle \<Rightarrow> int \<times> files_handle" where
  "files_stop h =
     (let h1 = h\<lparr>is_playing := False\<rparr>;
          h2 = (case stream h1 of None \<Rightarrow> h1 | Some s \<Rightarrow> output_remove_stream h1 s);
          h3 = (case prev_stream h2 of None \<Rightarrow> h2 | Some s \<Rightarrow> output_remove_stream h2 s);
          h4 = h3\<lparr>stream := None, prev_stream := None\<rparr>;
          h5 = file_close h4 (file' h4);
          h6 = file_close h5 (prev_file h5);
          h7 = h6\<lparr>file' := None, prev_file := None\<rparr>
      in (0, h7\<lparr>playlist_cur := - 1\<rparr>))"

text \<open>
  \<^verbatim>\<open>files_remove\<close>. There is no test of \<open>index\<close> against the length: the slot
  \<^verbatim>\<open>h->playlist[index]\<close> is freed and \<open>playlist_len - index - 1\<close> slots are moved
  whatever \<open>index\<close> is, and the function always returns 0. For an index in range
  the entries after it move down by one slot.
\<close>

definition files_remove :: "files_handle \<Rightarrow> int \<Rightarrow> (int \<times> files_handle) outcome" where
  "files_remove h index =
     (let h1 = (if playlist_cur h = index
                then (snd (files_stop h))\<lparr>playlist_cur := - 1\<rparr>
                else if index < playlist_cur h
                then h\<lparr>playlist_cur := playlist_cur h - 1\<rparr>
                else h)
      in if index < 0 \<or> playlist_len h1 \<le> index then Fault
         else Done (0, h1\<lparr>playlist :=
                take (nat index) (playlist h1) @ drop (nat index + 1) (playlist h1)\<rparr>))"

text \<open>The loop of \<^verbatim>\<open>files_flush\<close> frees the entries from the last one down.\<close>

function files_flush_loop :: "files_handle \<Rightarrow> files_handle" where
  "files_flush_loop h =
     (if playlist_len h \<noteq> 0
      then files_flush_loop (h\<lparr>playlist := butlast (playlist h)\<rparr>)
      else h)"
  by pat_completeness auto

termination files_flush_loop
  by (relation "measure (\<lambda>h. length (playlist h))") (auto simp: playlist_len_def)

declare files_flush_loop.simps [simp del]

definition files_flush :: "files_handle \<Rightarrow> files_handle" where
  "files_flush h =
     (files_flush_loop (snd (files_stop h)))\<lparr>playlist := [], playlist_cur := - 1\<rparr>"

subsection \<open>Playback control\<close>

definition files_play :: "env \<Rightarrow> files_handle \<Rightarrow> int \<Rightarrow> (int \<times> files_handle) outcome" where
  "files_play e h index0 =
     (let index = (if index0 = - 1
                   then (if playlist_cur h < 0 then 0 else playlist_cur h)
                   else index0)
      in if playlist_len h \<le> index then Done (- 1, h)
         else
           (case files_new_player e ((snd (files_stop h))\<lparr>playlist_cur := index\<rparr>) of
             Fault \<Rightarrow> Fault
           | Done p \<Rightarrow>
               if fst p \<noteq> 0
               then Done (- 1, (snd p)\<lparr>playlist_cur := - 1, is_playing := False\<rparr>)
               else Done (0, (snd p)\<lparr>is_playing := True\<rparr>)))"

definition files_pause :: "files_handle \<Rightarrow> int \<times> files_handle" where
  "files_pause h =
     (case stream h of
       None \<Rightarrow> (0, h)
     | Some s \<Rightarrow>
         if \<not> is_playing h
         then (0, output_play_stream (h\<lparr>is_playing := True\<rparr>) (Some s))
         else (0, output_pause_stream (h\<lparr>is_playing := False\<rparr>) (Some s)))"

definition files_prev :: "env \<Rightarrow> files_handle \<Rightarrow> (int \<times> files_handle) outcome" where
  "files_prev e h =
     (if playlist_cur h \<noteq> - 1 \<and> 0 \<le> playlist_cur h
      then
        (case files_play_prev e h of
          Fault \<Rightarrow> Fault
        | Done h1 \<Rightarrow> Done (0, (close_previous h1)\<lparr>prev_stream := None, prev_file := None\<rparr>))
      else Done (0, h))"

definition files_next :: "env \<Rightarrow> files_handle \<Rightarrow> (int \<times> files_handle) outcome" where
  "files_next e h =
     (if playlist_cur h \<noteq> - 1 \<and> playlist_cur h + 1 \<le> playlist_len h
      then
        (case files_play_next e h of
          Fault \<Rightarrow> Fault
        | Done h1 \<Rightarrow> Done (0, (close_previous h1)\<lparr>prev_stream := None, prev_file := None\<rparr>))
      else Done (0, h))"

definition files_seek :: "env \<Rightarrow> files_handle \<Rightarrow> nat \<Rightarrow> int \<times> files_handle" where
  "files_seek e h pos = (file_set_pos e (file' h) pos, h)"

subsection \<open>The HTTP handlers\<close>

text \<open>
  \<^verbatim>\<open>atoi\<close> of the C library: white space, an optional sign, decimal digits.
  \<open>atoi_value\<close> is the number that the text denotes. The handlers store the result
  of \<^verbatim>\<open>atoi\<close> in an \<^verbatim>\<open>int\<close> of 32 bits; for a number that an \<^verbatim>\<open>int\<close> cannot hold C
  leaves the behaviour of \<^verbatim>\<open>atoi\<close> undefined (a C library may return the low 32 bits
  of it, or of a saturated \<^verbatim>\<open>long\<close>), and \<open>atoi\<close> is \<open>Fault\<close>.
\<close>

definition INT_MIN :: int where
  "INT_MIN = - 2147483648"

definition INT_MAX :: int where
  "INT_MAX = 2147483647"

definition isspace :: "char \<Rightarrow> bool" where
  "isspace c = (c \<in> {CHR '' '', CHR 0x09, CHR 0x0A, CHR 0x0B, CHR 0x0C, CHR 0x0D})"

definition isdigit :: "char \<Rightarrow> bool" where
  "isdigit c = (c \<in> set ''0123456789'')"

fun atoi_digits :: "int \<Rightarrow> string \<Rightarrow> int" where
  "atoi_digits acc [] = acc"
| "atoi_digits acc (c # cs) =
     (if isdigit c then atoi_digits (10 * acc + (of_char c - 48)) cs else acc)"

definition atoi_value :: "string \<Rightarrow> int" where
  "atoi_value s =
     (case dropWhile isspace s of
       [] \<Rightarrow> 0
     | c # cs \<Rightarrow>
         if c = CHR ''-'' then - atoi_digits 0 cs
         else if c = CHR ''+'' then atoi_digits 0 cs
         else atoi_digits 0 (c # cs))"

definition atoi :: "string \<Rightarrow> int outcome" where
  "atoi s =
     (if INT_MIN \<le> atoi_value s \<and> atoi_value s \<le> INT_MAX then Done (atoi_value s)
      else Fault)"

text \<open>
  Of \<^verbatim>\<open>struct httpd_req\<close> the handlers of this module read the resource only. A handler
  returns the HTTP status and the body that \<^verbatim>\<open>HTTPD_RESPONSE\<close> stored, if any.
\<close>

record httpd_req =
  resource :: string

type_synonym response = "int \<times> string option"

type_synonym handler =
  "env \<Rightarrow> files_handle \<Rightarrow> httpd_req \<Rightarrow> (response \<times> files_handle) outcome"

definition files_httpd_playlist_add :: handler where
  "files_httpd_playlist_add e h req =
     (case files_add e h (Some (resource req)) of
       (idx, h1) \<Rightarrow>
         if idx < 0 then Done ((406, Some ''File is not supported''), h1)
         else Done ((200, None), h1))"

definition files_httpd_playlist_play :: handler where
  "files_httpd_playlist_play e h req =
     (case atoi (resource req) of
       Fault \<Rightarrow> Fault
     | Done idx \<Rightarrow>
         if idx < 0 then Done ((400, Some ''Bad index''), h)
         else
           (case files_play e h idx of
             Fault \<Rightarrow> Fault
           | Done p \<Rightarrow>
               if fst p \<noteq> 0 then Done ((500, Some ''Playlist error''), snd p)
               else Done ((200, None), snd p)))"

definition files_httpd_playlist_remove :: handler where
  "files_httpd_playlist_remove e h req =
     (case atoi (resource req) of
       Fault \<Rightarrow> Fault
     | Done idx \<Rightarrow>
         if idx < 0 then Done ((400, Some ''Bad index''), h)
         else
           (case files_remove h idx of
             Fault \<Rightarrow> Fault
           | Done p \<Rightarrow>
               if fst p \<noteq> 0 then Done ((500, Some ''Playlist error''), snd p)
               else Done ((200, None), snd p)))"

definition files_httpd_playlist_flush :: handler where
  "files_httpd_playlist_flush e h req = Done ((200, None), files_flush h)"

definition files_httpd_play :: handler where
  "files_httpd_play e h req =
     (let added = (if resource req \<noteq> [] then files_add e h (Some (resource req))
                   else (- 1, h))
      in if resource req \<noteq> [] \<and> fst added < 0
         then Done ((406, Some ''File is not supported''), snd added)
         else
           (case files_play e (snd added) (fst added) of
             Fault \<Rightarrow> Fault
           | Done p \<Rightarrow>
               if fst p \<noteq> 0 then Done ((406, Some ''Cannot play the file''), snd p)
               else Done ((200, None), snd p)))"

definition files_httpd_pause :: handler where
  "files_httpd_pause e h req = Done ((200, None), snd (files_pause h))"

definition files_httpd_stop :: handler where
  "files_httpd_stop e h req = Done ((200, None), snd (files_stop h))"

definition files_httpd_prev :: handler where
  "files_httpd_prev e h req =
     (case files_prev e h of Fault \<Rightarrow> Fault | Done p \<Rightarrow> Done ((200, None), snd p))"

definition files_httpd_next :: handler where
  "files_httpd_next e h req =
     (case files_next e h of Fault \<Rightarrow> Fault | Done p \<Rightarrow> Done ((200, None), snd p))"

text \<open>
  The entries of \<^verbatim>\<open>files_url\<close> that write the handle (the others, \<^verbatim>\<open>/playlist\<close>,
  \<^verbatim>\<open>/status\<close>, \<^verbatim>\<open>/list\<close> and \<^verbatim>\<open>/seek/\<close>, leave every field of the model as it is).
\<close>

datatype url =
  Url_playlist_add | Url_playlist_play | Url_playlist_remove | Url_playlist_flush
  | Url_play | Url_pause | Url_stop | Url_prev | Url_next

fun files_url :: "url \<Rightarrow> handler" where
  "files_url Url_playlist_add = files_httpd_playlist_add"
| "files_url Url_playlist_play = files_httpd_playlist_play"
| "files_url Url_playlist_remove = files_httpd_playlist_remove"
| "files_url Url_playlist_flush = files_httpd_playlist_flush"
| "files_url Url_play = files_httpd_play"
| "files_url Url_pause = files_httpd_pause"
| "files_url Url_stop = files_httpd_stop"
| "files_url Url_prev = files_httpd_prev"
| "files_url Url_next = files_httpd_next"

subsection \<open>Runs of the module\<close>

text \<open>
  What happens to an open module: a request reaches one of its handlers, or the
  watcher wakes up. Each comes with the answers of the collaborators at that time.
  In a run the events come one after the other: a handler returns before the next
  event. A run stops at undefined behaviour.
\<close>

datatype event = Request url string | Watcher

definition step :: "files_handle \<Rightarrow> env \<times> event \<Rightarrow> files_handle outcome" where
  "step h ev =
     (case snd ev of
       Request u r \<Rightarrow>
         (case files_url u (fst ev) h \<lparr>resource = r\<rparr> of
           Fault \<Rightarrow> Fault
         | Done p \<Rightarrow> Done (snd p))
     | Watcher \<Rightarrow> files_thread (fst ev) h)"

fun run :: "files_handle \<Rightarrow> (env \<times> event) list \<Rightarrow> files_handle outcome" where
  "run h [] = Done h"
| "run h (ev # evs) = (case step h ev of Fault \<Rightarrow> Fault | Done h1 \<Rightarrow> run h1 evs)"

subsection \<open>Overlapping requests\<close>

text \<open>
  Requests may be served at the same time, and the watcher runs beside them. The mutex
  makes the critical sections atomic, not the operations: \<^verbatim>\<open>files_play\<close> tests the
  index and calls \<^verbatim>\<open>files_stop\<close> before it locks the mutex, and writes the index and the
  flag after it has unlocked it when the player does not start; \<^verbatim>\<open>files_remove\<close>
  unlocks the mutex around its call of \<^verbatim>\<open>files_stop\<close>; \<^verbatim>\<open>files_flush\<close> calls
  \<^verbatim>\<open>files_stop\<close> before it locks. The other functions (\<^verbatim>\<open>files_stop\<close>, \<^verbatim>\<open>files_add\<close>,
  \<^verbatim>\<open>files_pause\<close>, \<^verbatim>\<open>files_prev\<close>, \<^verbatim>\<open>files_next\<close>, an iteration of \<^verbatim>\<open>files_thread\<close>) change
  the handle inside one critical section.

  The tail of \<^verbatim>\<open>files_remove\<close>: free the slot, move the slots after it, decrement the
  length.
\<close>

definition delete_slot :: "files_handle \<Rightarrow> int \<Rightarrow> files_handle outcome" where
  "delete_slot h index =
     (if index < 0 \<or> playlist_len h \<le> index then Fault
      else Done (h\<lparr>playlist :=
             take (nat index) (playlist h) @ drop (nat index + 1) (playlist h)\<rparr>))"

text \<open>
  The first critical section of \<^verbatim>\<open>files_remove\<close>, which ends at once when the index
  is the current one, and the second, after \<^verbatim>\<open>files_stop\<close>.
\<close>

definition remove_locked :: "files_handle \<Rightarrow> int \<Rightarrow> files_handle outcome" where
  "remove_locked h index =
     (if playlist_cur h = index then Done h
      else delete_slot
             (if index < playlist_cur h then h\<lparr>playlist_cur := playlist_cur h - 1\<rparr> else h)
             index)"

definition remove_relocked :: "files_handle \<Rightarrow> int \<Rightarrow> files_handle outcome" where
  "remove_relocked h index = delete_slot (h\<lparr>playlist_cur := - 1\<rparr>) index"

text \<open>The critical section of \<^verbatim>\<open>files_flush\<close>.\<close>

definition flush_locked :: "files_handle \<Rightarrow> files_handle" where
  "flush_locked h = (files_flush_loop h)\<lparr>playlist := [], playlist_cur := - 1\<rparr>"

text \<open>
  The critical section of \<^verbatim>\<open>files_play\<close>, for the index that the function has
  computed before; it returns the status that decides what follows.
\<close>

definition play_locked :: "env \<Rightarrow> files_handle \<Rightarrow> int \<Rightarrow> (int \<times> files_handle) outcome" where
  "play_locked e h index =
     (case files_new_player e (h\<lparr>playlist_cur := index\<rparr>) of
       Fault \<Rightarrow> Fault
     | Done p \<Rightarrow>
         if fst p \<noteq> 0 then Done (- 1, snd p)
         else Done (0, (snd p)\<lparr>is_playing := True\<rparr>))"

text \<open>
  The pieces that the mutex or the hardware make atomic: the critical sections, and
  the two writes of \<^verbatim>\<open>files_play\<close> outside of the mutex. The indices are parameters:
  \<^verbatim>\<open>files_play\<close> computes its index from fields that it reads without the mutex.
  Whatever the threads do is a sequence of such pieces, each thread's in the order of
  its program; \<open>interleaving\<close> runs any sequence of them, so it reaches every
  handle that the threads can reach (and stops at undefined behaviour).
\<close>

datatype csection =
  Sec_stop | Sec_add string | Sec_remove int | Sec_remove_again int | Sec_flush
  | Sec_play int | Sec_play_failed_cur | Sec_play_failed_flag
  | Sec_pause | Sec_prev | Sec_next | Sec_watcher

fun csection_step :: "env \<Rightarrow> files_handle \<Rightarrow> csection \<Rightarrow> files_handle outcome" where
  "csection_step e h Sec_stop = Done (snd (files_stop h))"
| "csection_step e h (Sec_add n) = Done (snd (files_add e h (Some n)))"
| "csection_step e h (Sec_remove i) = remove_locked h i"
| "csection_step e h (Sec_remove_again i) = remove_relocked h i"
| "csection_step e h Sec_flush = Done (flush_locked h)"
| "csection_step e h (Sec_play i) =
     (case play_locked e h i of Fault \<Rightarrow> Fault | Done p \<Rightarrow> Done (snd p))"
| "csection_step e h Sec_play_failed_cur = Done (h\<lparr>playlist_cur := - 1\<rparr>)"
| "csection_step e h Sec_play_failed_flag = Done (h\<lparr>is_playing := False\<rparr>)"
| "csection_step e h Sec_pause = Done (snd (files_pause h))"
| "csection_step e h Sec_prev =
     (case files_prev e h of Fault \<Rightarrow> Fault | Done p \<Rightarrow> Done (snd p))"
| "csection_step e h Sec_next =
     (case files_next e h of Fault \<Rightarrow> Fault | Done p \<Rightarrow> Done (snd p))"
| "csection_step e h Sec_watcher = files_thread e h"

fun interleaving :: "files_handle \<Rightarrow> (env \<times> csection) list \<Rightarrow> files_handle outcome" where
  "interleaving h [] = Done h"
| "interleaving h (s # ss) =
     (case csection_step (fst s) h (snd s) of Fault \<Rightarrow> Fault | Done h1 \<Rightarrow> interleaving h1 ss)"

subsection \<open>Invariants of the handle\<close>

text \<open>The current index is \<open>-1\<close> or an index of the playlist.\<close>

definition cur_in_range :: "files_handle \<Rightarrow> bool" where
  "cur_in_range h =
     (playlist_cur h = - 1 \<or> (0 \<le> playlist_cur h \<and> playlist_cur h < playlist_len h))"

text \<open>
  The streams in the current and the previous slot are registered at the output, the
  files in the two slots are open, the two slots hold different objects, and every
  object in use was allocated. (The converse, that nothing else is registered or
  open, holds as long as the requests come one after the other, but not when two
  \<^verbatim>\<open>files_play\<close> overlap; see \<open>example_overlap\<close>.)
\<close>

definition session_ok :: "files_handle \<Rightarrow> bool" where
  "session_ok h =
     (set_option (stream h) \<union> set_option (prev_stream h) \<subseteq> out_streams h
      \<and> set_option (file' h) \<union> set_option (prev_file h) \<subseteq> open_files h
      \<and> (stream h = None \<or> stream h \<noteq> prev_stream h)
      \<and> (file' h = None \<or> file' h \<noteq> prev_file h)
      \<and> out_streams h \<subseteq> {..<next_ptr h}
      \<and> open_files h \<subseteq> {..<next_ptr h})"

text \<open>
  Where the current slot is about to be overwritten (its content was moved to the
  previous slot, or released, or is given up) only the previous slot counts.
\<close>

definition transition_ok :: "files_handle \<Rightarrow> bool" where
  "transition_ok h =
     (set_option (prev_stream h) \<subseteq> out_streams h
      \<and> set_option (prev_file h) \<subseteq> open_files h
      \<and> out_streams h \<subseteq> {..<next_ptr h}
      \<and> open_files h \<subseteq> {..<next_ptr h})"

text \<open>The invariant of an open module.\<close>

definition handle_ok :: "files_handle \<Rightarrow> bool" where
  "handle_ok h = (cur_in_range h \<and> session_ok h)"

text \<open>
  The state STOPPED of the engine: no current index, no current stream, no current
  file.
\<close>

definition STOPPED :: "files_handle \<Rightarrow> bool" where
  "STOPPED h = (playlist_cur h = - 1 \<and> stream h = None \<and> file' h = None)"

text \<open>Whether \<^verbatim>\<open>file_open\<close> succeeds on the entry at index \<open>k\<close>.\<close>

definition entry_opens :: "env \<Rightarrow> files_handle \<Rightarrow> int \<Rightarrow> bool" where
  "entry_opens e h k = file_open_ok e (filename (playlist h ! nat k))"


section \<open>Opening the modules (src/main.c)\<close>








section \<open>Examples\<close>

text \<open>
  Collaborators for which every file but \<^verbatim>\<open>bad.mp3\<close> can be parsed and opened, and
  the handle after three additions and \<^verbatim>\<open>PUT /play\<close>.
\<close>

definition env_example :: env where
  "env_example =
     \<lparr>file_open_ok = (\<lambda>n. n \<noteq> ''/var/aircat/files/bad.mp3''),
      output_add_stream_ok = (\<lambda>f. True),
      file_format_parse =
        (\<lambda>n. if n = ''/var/aircat/files/bad.mp3'' then None
             else Some \<lparr>title = n, artist = [], album = []\<rparr>),
      file_at_end = (\<lambda>f. True),
      file_set_pos = (\<lambda>f pos. 0)\<rparr>"


definition example_handle :: files_handle where
  "example_handle =
     \<lparr>file' = Some 0, stream = Some 1, prev_file = None, prev_stream = None,
      is_playing = True,
      playlist =
        [\<lparr>filename = ''/var/aircat/files/a.mp3'',
          format = Some \<lparr>title = ''/var/aircat/files/a.mp3'', artist = [], album = []\<rparr>\<rparr>,
         \<lparr>filename = ''/var/aircat/files/bad.mp3'', format = None\<rparr>,
         \<lparr>filename = ''/var/aircat/files/c.mp3'',
          format = Some \<lparr>title = ''/var/aircat/files/c.mp3'', artist = [], album = []\<rparr>\<rparr>],
      playlist_alloc = 32, playlist_cur = 0, path = ''/var/aircat/files'',
      out_streams = {1}, out_playing = {1}, open_files = {0}, next_ptr = 2\<rparr>"


text \<open>
  Two \<^verbatim>\<open>PUT /playlist/play/0\<close> that overlap: both have called \<^verbatim>\<open>files_stop\<close> before
  either starts its player.
\<close>

definition overlap_sections :: "(env \<times> csection) list" where
  "overlap_sections =
     [(env_example, Sec_add ''a.mp3''),
      (env_example, Sec_stop), (env_example, Sec_stop),
      (env_example, Sec_play 0), (env_example, Sec_play 0)]"



section \<open>Properties of the file-source module\<close>

subsection \<open>What each function does to the invariants\<close>


lemma files_stop_eq:
  "files_stop h =
     (0, h\<lparr>is_playing := False,
          out_streams := out_streams h - set_option (stream h) - set_option (prev_stream h),
          out_playing := out_playing h - set_option (stream h) - set_option (prev_stream h),
          stream := None, prev_stream := None,
          open_files := open_files h - set_option (file' h) - set_option (prev_file h),
          file' := None, prev_file := None, playlist_cur := - 1\<rparr>)"
  by (cases "stream h"; cases "prev_stream h"; cases "file' h"; cases "prev_file h")
    (simp_all add: files_stop_def output_remove_stream_def file_close_def)

lemma files_stop_fields:
  "stream (snd (files_stop h)) = None"
  "prev_stream (snd (files_stop h)) = None"
  "file' (snd (files_stop h)) = None"
  "prev_file (snd (files_stop h)) = None"
  "is_playing (snd (files_stop h)) = False"
  "playlist_cur (snd (files_stop h)) = - 1"
  "playlist (snd (files_stop h)) = playlist h"
  "playlist_alloc (snd (files_stop h)) = playlist_alloc h"
  "path (snd (files_stop h)) = path h"
  "next_ptr (snd (files_stop h)) = next_ptr h"
  "out_streams (snd (files_stop h)) =
     out_streams h - set_option (stream h) - set_option (prev_stream h)"
  "out_playing (snd (files_stop h)) =
     out_playing h - set_option (stream h) - set_option (prev_stream h)"
  "open_files (snd (files_stop h)) =
     open_files h - set_option (file' h) - set_option (prev_file h)"
  "fst (files_stop h) = 0"
  by (simp_all add: files_stop_eq)

lemma files_stop_len: "playlist_len (snd (files_stop h)) = playlist_len h"
  by (simp add: playlist_len_def files_stop_fields)

lemma files_stop_session_ok:
  "session_ok h \<Longrightarrow> session_ok (snd (files_stop h))"
  by (auto simp: session_ok_def files_stop_fields)

lemma files_stop_transition_ok:
  "session_ok h \<Longrightarrow> transition_ok (snd (files_stop h))"
  by (auto simp: session_ok_def transition_ok_def files_stop_fields)

lemma files_new_player_Done:
  assumes "0 \<le> playlist_cur h" "playlist_cur h < playlist_len h"
  shows "\<exists>p. files_new_player e h = Done p"
  using assms by (simp add: files_new_player_def split: prod.splits)

lemma allocated_less:
  "A \<subseteq> {..<n} \<Longrightarrow> x \<in> A \<Longrightarrow> x < Suc n \<and> x < Suc (Suc n) \<and> x \<noteq> n \<and> x \<noteq> Suc n"
  by auto

lemma files_new_player_fail:
  assumes "files_new_player e h = Done p" "fst p \<noteq> 0" "transition_ok h"
  shows "transition_ok (snd p) \<and> file' (snd p) = None \<and> stream (snd p) = None
    \<and> prev_stream (snd p) = prev_stream h \<and> prev_file (snd p) = prev_file h
    \<and> is_playing (snd p) = is_playing h"
  using assms
  by (auto simp: files_new_player_def file_open_def file_close_def output_add_stream_def
      output_play_stream_def transition_ok_def split: if_splits option.splits)

lemma files_new_player_success:
  assumes "files_new_player e h = Done p" "fst p = 0" "transition_ok h"
  shows "session_ok (snd p) \<and> file' (snd p) \<noteq> None
    \<and> prev_stream (snd p) = prev_stream h \<and> prev_file (snd p) = prev_file h
    \<and> is_playing (snd p) = is_playing h"
  using assms
  by (auto simp: files_new_player_def file_open_def file_close_def output_add_stream_def
      output_play_stream_def transition_ok_def session_ok_def
      split: if_splits option.splits dest: allocated_less)

lemma transition_ok_dead_slot:
  "transition_ok h \<Longrightarrow> session_ok (h\<lparr>playlist_cur := c, stream := None, file' := None\<rparr>)"
  by (simp add: transition_ok_def session_ok_def)

lemma files_play_next_loop_end:
  assumes "playlist_cur h \<le> playlist_len h" "playlist_len h \<le> playlist_cur h + 1"
  shows "files_play_next_loop e h =
    Done (h\<lparr>playlist_cur := - 1, stream := None, file' := None\<rparr>)"
  using assms by (subst files_play_next_loop.simps) (simp add: Let_def playlist_len_def)

lemma files_play_next_loop_skip:
  assumes "playlist_cur h \<le> playlist_len h" "\<not> playlist_len h \<le> playlist_cur h + 1"
    and "files_new_player e (h\<lparr>playlist_cur := playlist_cur h + 1\<rparr>) = Done p"
    and "fst p \<noteq> 0"
  shows "files_play_next_loop e h = files_play_next_loop e (snd p)"
  using assms by (subst files_play_next_loop.simps) (simp add: Let_def playlist_len_def)

lemma files_play_next_loop_found:
  assumes "playlist_cur h \<le> playlist_len h" "\<not> playlist_len h \<le> playlist_cur h + 1"
    and "files_new_player e (h\<lparr>playlist_cur := playlist_cur h + 1\<rparr>) = Done p"
    and "fst p = 0"
  shows "files_play_next_loop e h = Done (snd p)"
  using assms by (subst files_play_next_loop.simps) (simp add: Let_def playlist_len_def)

lemma files_play_next_loop_ok:
  assumes "transition_ok h" "- 1 \<le> playlist_cur h" "playlist_cur h \<le> playlist_len h"
  shows "\<exists>h'. files_play_next_loop e h = Done h' \<and> session_ok h' \<and> cur_in_range h'
    \<and> playlist h' = playlist h \<and> prev_stream h' = prev_stream h
    \<and> prev_file h' = prev_file h \<and> is_playing h' = is_playing h
    \<and> playlist_alloc h' = playlist_alloc h \<and> path h' = path h"
  using assms
proof (induction e h rule: files_play_next_loop.induct)
  case (1 e h)
  define h1 where "h1 = h\<lparr>playlist_cur := playlist_cur h + 1\<rparr>"
  show ?case
  proof (cases "playlist_len h \<le> playlist_cur h + 1")
    case True
    show ?thesis
      using "1.prems"(1)
      by (simp add: files_play_next_loop_end [OF "1.prems"(3) True]
          transition_ok_dead_slot cur_in_range_def)
  next
    case False
    have t1: "transition_ok h1"
      using "1.prems"(1) by (simp add: h1_def transition_ok_def)
    have rng: "0 \<le> playlist_cur h1" "playlist_cur h1 < playlist_len h1"
      using False "1.prems"(2) by (simp_all add: h1_def playlist_len_def)
    from files_new_player_Done [OF rng] obtain p where p: "files_new_player e h1 = Done p"
      by blast
    note keep = files_new_player_keeps [OF p]
    show ?thesis
    proof (cases "fst p = 0")
      case True
      have "files_play_next_loop e h = Done (snd p)"
        using files_play_next_loop_found [OF "1.prems"(3) False] p True
        by (simp add: h1_def)
      moreover have "cur_in_range (snd p)"
        using keep rng by (simp add: cur_in_range_def playlist_len_def)
      ultimately show ?thesis
        using files_new_player_success [OF p True t1] keep
        by (simp add: h1_def)
    next
      case nz: False
      have eq: "files_play_next_loop e h = files_play_next_loop e (snd p)"
        using files_play_next_loop_skip [OF "1.prems"(3) False] p nz
        by (simp add: h1_def)
      have f: "transition_ok (snd p)"
        using files_new_player_fail [OF p nz t1] by simp
      have c: "- 1 \<le> playlist_cur (snd p)" "playlist_cur (snd p) \<le> playlist_len (snd p)"
        using keep rng by (simp_all add: playlist_len_def)
      have nle: "\<not> playlist_len h1 \<le> playlist_cur h1"
        using rng by simp
      from "1.IH" [OF "1.prems"(3) h1_def nle p nz f c]
      show ?thesis
        using keep by (simp add: eq h1_def)
    qed
  qed
qed

lemma files_play_prev_loop_end:
  assumes "0 \<le> playlist_cur h" "playlist_cur h - 1 < 0"
  shows "files_play_prev_loop e h =
    Done (h\<lparr>playlist_cur := - 1, stream := None, file' := None\<rparr>)"
  using assms by (subst files_play_prev_loop.simps) (simp add: Let_def)

lemma files_play_prev_loop_skip:
  assumes "0 \<le> playlist_cur h" "\<not> playlist_cur h - 1 < 0"
    and "files_new_player e (h\<lparr>playlist_cur := playlist_cur h - 1\<rparr>) = Done p"
    and "fst p \<noteq> 0"
  shows "files_play_prev_loop e h = files_play_prev_loop e (snd p)"
  using assms by (subst files_play_prev_loop.simps) (simp add: Let_def)

lemma files_play_prev_loop_found:
  assumes "0 \<le> playlist_cur h" "\<not> playlist_cur h - 1 < 0"
    and "files_new_player e (h\<lparr>playlist_cur := playlist_cur h - 1\<rparr>) = Done p"
    and "fst p = 0"
  shows "files_play_prev_loop e h = Done (snd p)"
  using assms by (subst files_play_prev_loop.simps) (simp add: Let_def)

lemma files_play_prev_loop_ok:
  assumes "transition_ok h" "0 \<le> playlist_cur h" "playlist_cur h \<le> playlist_len h"
  shows "\<exists>h'. files_play_prev_loop e h = Done h' \<and> session_ok h' \<and> cur_in_range h'
    \<and> playlist h' = playlist h \<and> prev_stream h' = prev_stream h
    \<and> prev_file h' = prev_file h \<and> is_playing h' = is_playing h
    \<and> playlist_alloc h' = playlist_alloc h \<and> path h' = path h"
  using assms
proof (induction e h rule: files_play_prev_loop.induct)
  case (1 e h)
  define h1 where "h1 = h\<lparr>playlist_cur := playlist_cur h - 1\<rparr>"
  show ?case
  proof (cases "playlist_cur h - 1 < 0")
    case True
    show ?thesis
      using "1.prems"(1)
      by (simp add: files_play_prev_loop_end [OF "1.prems"(2) True]
          transition_ok_dead_slot cur_in_range_def)
  next
    case False
    have t1: "transition_ok h1"
      using "1.prems"(1) by (simp add: h1_def transition_ok_def)
    have rng: "0 \<le> playlist_cur h1" "playlist_cur h1 < playlist_len h1"
      using False "1.prems"(3) by (simp_all add: h1_def playlist_len_def)
    from files_new_player_Done [OF rng] obtain p where p: "files_new_player e h1 = Done p"
      by blast
    note keep = files_new_player_keeps [OF p]
    show ?thesis
    proof (cases "fst p = 0")
      case True
      have "files_play_prev_loop e h = Done (snd p)"
        using files_play_prev_loop_found [OF "1.prems"(2) False] p True
        by (simp add: h1_def)
      moreover have "cur_in_range (snd p)"
        using keep rng by (simp add: cur_in_range_def playlist_len_def)
      ultimately show ?thesis
        using files_new_player_success [OF p True t1] keep
        by (simp add: h1_def)
    next
      case nz: False
      have eq: "files_play_prev_loop e h = files_play_prev_loop e (snd p)"
        using files_play_prev_loop_skip [OF "1.prems"(2) False] p nz
        by (simp add: h1_def)
      have f: "transition_ok (snd p)"
        using files_new_player_fail [OF p nz t1] by simp
      have c: "0 \<le> playlist_cur (snd p)" "playlist_cur (snd p) \<le> playlist_len (snd p)"
        using keep rng by (simp_all add: playlist_len_def)
      have nlt: "\<not> playlist_cur h1 < 0"
        using rng by simp
      from "1.IH" [OF "1.prems"(2) h1_def nlt p nz f c]
      show ?thesis
        using keep by (simp add: eq h1_def)
    qed
  qed
qed

lemma close_previous_fields:
  "stream (close_previous h) = stream h"
  "prev_stream (close_previous h) = prev_stream h"
  "file' (close_previous h) = file' h"
  "prev_file (close_previous h) = prev_file h"
  "is_playing (close_previous h) = is_playing h"
  "playlist_cur (close_previous h) = playlist_cur h"
  "playlist (close_previous h) = playlist h"
  "playlist_alloc (close_previous h) = playlist_alloc h"
  "path (close_previous h) = path h"
  "next_ptr (close_previous h) = next_ptr h"
  "out_streams (close_previous h) = out_streams h - set_option (prev_stream h)"
  "out_playing (close_previous h) = out_playing h - set_option (prev_stream h)"
  "open_files (close_previous h) = open_files h - set_option (prev_file h)"
  by (simp_all add: close_previous_def output_remove_stream_def file_close_def
      split: option.splits)

lemma close_previous_len: "playlist_len (close_previous h) = playlist_len h"
  by (simp add: playlist_len_def close_previous_fields)

lemma supersede_transition_ok:
  assumes "session_ok h"
  shows "transition_ok ((close_previous h)\<lparr>prev_stream := stream h, prev_file := file' h\<rparr>)"
  using assms
  by (auto simp: session_ok_def transition_ok_def close_previous_fields)

lemma close_previous_session_ok:
  assumes "session_ok h"
  shows "session_ok ((close_previous h)\<lparr>prev_stream := None, prev_file := None\<rparr>)"
  using assms
  by (auto simp: session_ok_def close_previous_fields)


lemma files_play_next_ok:
  assumes "session_ok h" "cur_in_range h"
  shows "\<exists>h'. files_play_next e h = Done h' \<and> session_ok h' \<and> cur_in_range h'
    \<and> playlist h' = playlist h \<and> prev_stream h' = stream h \<and> prev_file h' = file' h
    \<and> is_playing h' = is_playing h \<and> playlist_alloc h' = playlist_alloc h
    \<and> path h' = path h"
proof -
  let ?g = "(close_previous h)\<lparr>prev_stream := stream h, prev_file := file' h\<rparr>"
  have c: "- 1 \<le> playlist_cur ?g" "playlist_cur ?g \<le> playlist_len ?g"
    using assms(2)
    by (auto simp: cur_in_range_def playlist_len_def close_previous_fields)
  from files_play_next_loop_ok [OF supersede_transition_ok [OF assms(1)] c, of e]
  show ?thesis
    by (simp add: files_play_next_def close_previous_fields)
qed

lemma files_play_prev_ok:
  assumes "session_ok h" "cur_in_range h" "0 \<le> playlist_cur h"
  shows "\<exists>h'. files_play_prev e h = Done h' \<and> session_ok h' \<and> cur_in_range h'
    \<and> playlist h' = playlist h \<and> prev_stream h' = stream h \<and> prev_file h' = file' h
    \<and> is_playing h' = is_playing h \<and> playlist_alloc h' = playlist_alloc h
    \<and> path h' = path h"
proof -
  let ?g = "(close_previous h)\<lparr>prev_stream := stream h, prev_file := file' h\<rparr>"
  have c: "0 \<le> playlist_cur ?g" "playlist_cur ?g \<le> playlist_len ?g"
    using assms(2,3)
    by (auto simp: cur_in_range_def playlist_len_def close_previous_fields)
  from files_play_prev_loop_ok [OF supersede_transition_ok [OF assms(1)] c, of e]
  show ?thesis
    by (simp add: files_play_prev_def close_previous_fields)
qed

lemma cur_in_range_cong:
  "playlist_cur g = playlist_cur h \<Longrightarrow> playlist g = playlist h \<Longrightarrow>
   cur_in_range g = cur_in_range h"
  by (simp add: cur_in_range_def playlist_len_def)

lemma files_next_ok:
  assumes "handle_ok h"
  shows "\<exists>h'. files_next e h = Done (0, h') \<and> handle_ok h' \<and> playlist h' = playlist h"
proof (cases "playlist_cur h \<noteq> - 1 \<and> playlist_cur h + 1 \<le> playlist_len h")
  case True
  from assms have a: "session_ok h" "cur_in_range h"
    by (simp_all add: handle_ok_def)
  from files_play_next_ok [OF a, of e] obtain h1 where
    h1: "files_play_next e h = Done h1" "session_ok h1" "cur_in_range h1"
      "playlist h1 = playlist h"
    by blast
  let ?h' = "(close_previous h1)\<lparr>prev_stream := None, prev_file := None\<rparr>"
  have "cur_in_range ?h' = cur_in_range h1"
    by (rule cur_in_range_cong) (simp_all add: close_previous_fields)
  with h1 close_previous_session_ok [OF h1(2)] True show ?thesis
    by (simp add: files_next_def handle_ok_def close_previous_fields)
next
  case False
  with assms show ?thesis
    by (auto simp: files_next_def)
qed

lemma files_prev_ok:
  assumes "handle_ok h"
  shows "\<exists>h'. files_prev e h = Done (0, h') \<and> handle_ok h' \<and> playlist h' = playlist h"
proof (cases "playlist_cur h \<noteq> - 1 \<and> 0 \<le> playlist_cur h")
  case True
  from assms have a: "session_ok h" "cur_in_range h"
    by (simp_all add: handle_ok_def)
  from True have ge: "0 \<le> playlist_cur h"
    by simp
  from files_play_prev_ok [OF a ge, of e] obtain h1 where
    h1: "files_play_prev e h = Done h1" "session_ok h1" "cur_in_range h1"
      "playlist h1 = playlist h"
    by blast
  let ?h' = "(close_previous h1)\<lparr>prev_stream := None, prev_file := None\<rparr>"
  have "cur_in_range ?h' = cur_in_range h1"
    by (rule cur_in_range_cong) (simp_all add: close_previous_fields)
  with h1 close_previous_session_ok [OF h1(2)] True show ?thesis
    by (simp add: files_prev_def handle_ok_def close_previous_fields)
next
  case False
  with assms show ?thesis
    by (auto simp: files_prev_def)
qed

lemma files_thread_ok:
  assumes "handle_ok h"
  shows "\<exists>h'. files_thread e h = Done h' \<and> handle_ok h' \<and> playlist h' = playlist h"
proof -
  from assms have a: "session_ok h" "cur_in_range h"
    by (simp_all add: handle_ok_def)
  from files_play_next_ok [OF a, of e] assms show ?thesis
    by (auto simp: files_thread_def handle_ok_def split: option.splits)
qed

lemma files_stop_ok:
  assumes "handle_ok h"
  shows "handle_ok (snd (files_stop h))"
  using assms files_stop_session_ok [of h]
  by (simp add: handle_ok_def cur_in_range_def files_stop_fields)

lemma files_add_ok:
  assumes "handle_ok h"
  shows "handle_ok (snd (files_add e h name))"
  using assms
  by (cases name)
    (auto simp: files_add_def handle_ok_def cur_in_range_def session_ok_def playlist_len_def
      Let_def)

lemma files_pause_fields:
  "stream (snd (files_pause h)) = stream h"
  "prev_stream (snd (files_pause h)) = prev_stream h"
  "file' (snd (files_pause h)) = file' h"
  "prev_file (snd (files_pause h)) = prev_file h"
  "playlist_cur (snd (files_pause h)) = playlist_cur h"
  "playlist (snd (files_pause h)) = playlist h"
  "next_ptr (snd (files_pause h)) = next_ptr h"
  "out_streams (snd (files_pause h)) = out_streams h"
  "open_files (snd (files_pause h)) = open_files h"
  by (cases "stream h"; cases "is_playing h";
      simp add: files_pause_def output_play_stream_def output_pause_stream_def)+

lemma files_pause_ok:
  assumes "handle_ok h"
  shows "handle_ok (snd (files_pause h))"
  using assms
  by (simp add: handle_ok_def cur_in_range_def session_ok_def playlist_len_def
      files_pause_fields)

lemma files_flush_loop_eq: "files_flush_loop h = h\<lparr>playlist := []\<rparr>"
proof (induction h rule: files_flush_loop.induct)
  case (1 h)
  show ?case
  proof (cases "playlist_len h \<noteq> 0")
    case True
    with "1.IH" show ?thesis
      by (subst files_flush_loop.simps) simp
  next
    case False
    then show ?thesis
      by (subst files_flush_loop.simps) (simp add: playlist_len_def)
  qed
qed

lemma files_flush_ok:
  assumes "handle_ok h"
  shows "handle_ok (files_flush h)"
  using files_stop_ok [OF assms]
  by (simp add: files_flush_def files_flush_loop_eq handle_ok_def cur_in_range_def
      session_ok_def)

lemma files_remove_ok:
  assumes "handle_ok h" "0 \<le> index" "index < playlist_len h"
  shows "\<exists>h'. files_remove h index = Done (0, h') \<and> handle_ok h'"
proof (cases "playlist_cur h = index")
  case True
  with assms(2,3) files_stop_ok [OF assms(1)] show ?thesis
    by (simp add: files_remove_def Let_def files_stop_fields handle_ok_def cur_in_range_def
        session_ok_def playlist_len_def)
next
  case False
  with assms show ?thesis
    by (auto simp: files_remove_def Let_def handle_ok_def cur_in_range_def
        session_ok_def playlist_len_def)
qed

lemma files_remove_Fault:
  assumes "index < 0 \<or> playlist_len h \<le> index"
  shows "files_remove h index = Fault"
  using assms
  by (auto simp: files_remove_def Let_def files_stop_fields playlist_len_def)

lemma files_play_ok:
  assumes "handle_ok h" "- 1 \<le> index"
  shows "\<exists>r h'. files_play e h index = Done (r, h') \<and> handle_ok h'"
proof -
  define i where "i = (if index = - 1
                   then (if playlist_cur h < 0 then 0 else playlist_cur h)
                   else index)"
  have i0: "0 \<le> i"
    using assms(2) by (auto simp: i_def)
  show ?thesis
  proof (cases "playlist_len h \<le> i")
    case True
    with assms(1) show ?thesis
      by (simp add: files_play_def i_def [symmetric] Let_def)
  next
    case False
    let ?g = "(snd (files_stop h))\<lparr>playlist_cur := i\<rparr>"
    from assms(1) have "session_ok h"
      by (simp add: handle_ok_def)
    from files_stop_transition_ok [OF this] have t: "transition_ok ?g"
      by (simp add: transition_ok_def)
    have rng: "0 \<le> playlist_cur ?g" "playlist_cur ?g < playlist_len ?g"
      using i0 False by (simp_all add: playlist_len_def files_stop_fields)
    from files_new_player_Done [OF rng] obtain p where p: "files_new_player e ?g = Done p"
      by blast
    note keep = files_new_player_keeps [OF p]
    show ?thesis
    proof (cases "fst p = 0")
      case True
      from files_new_player_success [OF p True t] keep rng
      have "handle_ok ((snd p)\<lparr>is_playing := True\<rparr>)"
        by (simp add: handle_ok_def cur_in_range_def session_ok_def playlist_len_def)
      with p True False show ?thesis
        by (simp add: files_play_def i_def [symmetric] Let_def)
    next
      case nz: False
      from files_new_player_fail [OF p nz t] keep
      have "handle_ok ((snd p)\<lparr>playlist_cur := - 1, is_playing := False\<rparr>)"
        by (simp add: handle_ok_def cur_in_range_def session_ok_def transition_ok_def
            files_stop_fields)
      with p nz False show ?thesis
        by (simp add: files_play_def i_def [symmetric] Let_def)
    qed
  qed
qed

lemma files_stop_again: "(snd (files_stop h))\<lparr>playlist_cur := - 1\<rparr> = snd (files_stop h)"
  by (simp add: files_stop_eq)

lemma files_new_player_open_fails:
  assumes "0 \<le> playlist_cur h" "playlist_cur h < playlist_len h"
    and "\<not> entry_opens e h (playlist_cur h)"
  shows "files_new_player e h =
    Done (- 1, h\<lparr>file' := None, stream := None,
                  open_files := open_files h - {next_ptr h},
                  next_ptr := Suc (next_ptr h)\<rparr>)"
  using assms
  by (simp add: files_new_player_def file_open_def file_close_def entry_opens_def)

lemma files_new_player_status:
  assumes "files_new_player e h = Done p"
  shows "(fst p = 0) = entry_opens e h (playlist_cur h)"
    and "fst p = 0 \<Longrightarrow> file' (snd p) \<noteq> None"
  using assms
  by (auto simp: files_new_player_def file_open_def file_close_def entry_opens_def
      output_add_stream_def output_play_stream_def split: if_splits option.splits)

subsection \<open>What the two scans find\<close>

lemma files_play_next_loop_lands:
  assumes "- 1 \<le> playlist_cur h" "playlist_cur h < j" "j < playlist_len h"
    and "\<forall>k. playlist_cur h < k \<and> k < j \<longrightarrow> \<not> entry_opens e h k"
    and "entry_opens e h j"
  shows "\<exists>h'. files_play_next_loop e h = Done h' \<and> playlist_cur h' = j
    \<and> file' h' \<noteq> None"
  using assms
proof (induction e h rule: files_play_next_loop.induct)
  case (1 e h)
  define h1 where "h1 = h\<lparr>playlist_cur := playlist_cur h + 1\<rparr>"
  have le: "playlist_cur h \<le> playlist_len h" and nle: "\<not> playlist_len h \<le> playlist_cur h + 1"
    using "1.prems"(2,3) by simp_all
  have rng: "0 \<le> playlist_cur h1" "playlist_cur h1 < playlist_len h1"
    using "1.prems"(1-3) by (simp_all add: h1_def playlist_len_def)
  from files_new_player_Done [OF rng] obtain p where p: "files_new_player e h1 = Done p"
    by blast
  note keep = files_new_player_keeps [OF p]
  have opens: "entry_opens e h1 k = entry_opens e h k" for k
    by (simp add: entry_opens_def h1_def)
  show ?case
  proof (cases "playlist_cur h + 1 = j")
    case True
    have z: "fst p = 0"
      using files_new_player_status(1) [OF p] "1.prems"(5) True
      by (simp add: opens) (simp add: h1_def)
    have "files_play_next_loop e h = Done (snd p)"
      using files_play_next_loop_found [OF le nle] p z by (simp add: h1_def)
    with files_new_player_status(2) [OF p z] keep True show ?thesis
      by (simp add: h1_def)
  next
    case False
    with "1.prems"(2) have lt: "playlist_cur h + 1 < j"
      by simp
    have nz: "fst p \<noteq> 0"
      using files_new_player_status(1) [OF p] "1.prems"(4) lt
      by (simp add: opens) (simp add: h1_def)
    have eq: "files_play_next_loop e h = files_play_next_loop e (snd p)"
      using files_play_next_loop_skip [OF le nle] p nz by (simp add: h1_def)
    have o2: "entry_opens e (snd p) k = entry_opens e h k" for k
      using keep by (simp add: entry_opens_def h1_def)
    have c: "- 1 \<le> playlist_cur (snd p)" "playlist_cur (snd p) < j"
      "j < playlist_len (snd p)"
      using keep lt "1.prems"(1,3) by (simp_all add: h1_def playlist_len_def)
    have f: "\<forall>k. playlist_cur (snd p) < k \<and> k < j \<longrightarrow> \<not> entry_opens e (snd p) k"
      using "1.prems"(4) keep by (simp add: o2 h1_def)
    have g: "entry_opens e (snd p) j"
      using "1.prems"(5) by (simp add: o2)
    have nle1: "\<not> playlist_len h1 \<le> playlist_cur h1"
      using rng by simp
    from "1.IH" [OF le h1_def nle1 p nz c f g] show ?thesis
      by (simp add: eq)
  qed
qed

lemma files_play_next_loop_stops:
  assumes "- 1 \<le> playlist_cur h" "playlist_cur h \<le> playlist_len h"
    and "\<forall>k. playlist_cur h < k \<and> k < playlist_len h \<longrightarrow> \<not> entry_opens e h k"
  shows "\<exists>h'. files_play_next_loop e h = Done h' \<and> STOPPED h'"
  using assms
proof (induction e h rule: files_play_next_loop.induct)
  case (1 e h)
  define h1 where "h1 = h\<lparr>playlist_cur := playlist_cur h + 1\<rparr>"
  note le = "1.prems"(2)
  show ?case
  proof (cases "playlist_len h \<le> playlist_cur h + 1")
    case True
    show ?thesis
      by (simp add: files_play_next_loop_end [OF le True] STOPPED_def)
  next
    case nle: False
    have rng: "0 \<le> playlist_cur h1" "playlist_cur h1 < playlist_len h1"
      using "1.prems"(1) nle by (simp_all add: h1_def playlist_len_def)
    from files_new_player_Done [OF rng] obtain p where p: "files_new_player e h1 = Done p"
      by blast
    note keep = files_new_player_keeps [OF p]
    have opens: "entry_opens e h1 k = entry_opens e h k" for k
      by (simp add: entry_opens_def h1_def)
    have nz: "fst p \<noteq> 0"
      using files_new_player_status(1) [OF p] "1.prems"(3) nle
      by (simp add: opens) (simp add: h1_def)
    have eq: "files_play_next_loop e h = files_play_next_loop e (snd p)"
      using files_play_next_loop_skip [OF le nle] p nz by (simp add: h1_def)
    have o2: "entry_opens e (snd p) k = entry_opens e h k" for k
      using keep by (simp add: entry_opens_def h1_def)
    have c: "- 1 \<le> playlist_cur (snd p)" "playlist_cur (snd p) \<le> playlist_len (snd p)"
      using keep nle "1.prems"(1) by (simp_all add: h1_def playlist_len_def)
    have f: "\<forall>k. playlist_cur (snd p) < k \<and> k < playlist_len (snd p)
        \<longrightarrow> \<not> entry_opens e (snd p) k"
      using "1.prems"(3) keep by (simp add: o2 h1_def playlist_len_def)
    have nle1: "\<not> playlist_len h1 \<le> playlist_cur h1"
      using rng by simp
    from "1.IH" [OF le h1_def nle1 p nz c f] show ?thesis
      by (simp add: eq)
  qed
qed

lemma files_play_prev_loop_lands:
  assumes "0 \<le> j" "j < playlist_cur h" "playlist_cur h \<le> playlist_len h"
    and "\<forall>k. j < k \<and> k < playlist_cur h \<longrightarrow> \<not> entry_opens e h k"
    and "entry_opens e h j"
  shows "\<exists>h'. files_play_prev_loop e h = Done h' \<and> playlist_cur h' = j
    \<and> file' h' \<noteq> None"
  using assms
proof (induction e h rule: files_play_prev_loop.induct)
  case (1 e h)
  define h1 where "h1 = h\<lparr>playlist_cur := playlist_cur h - 1\<rparr>"
  have ge: "0 \<le> playlist_cur h" and nlt: "\<not> playlist_cur h - 1 < 0"
    using "1.prems"(1,2) by simp_all
  have rng: "0 \<le> playlist_cur h1" "playlist_cur h1 < playlist_len h1"
    using "1.prems"(1-3) by (simp_all add: h1_def playlist_len_def)
  from files_new_player_Done [OF rng] obtain p where p: "files_new_player e h1 = Done p"
    by blast
  note keep = files_new_player_keeps [OF p]
  have opens: "entry_opens e h1 k = entry_opens e h k" for k
    by (simp add: entry_opens_def h1_def)
  show ?case
  proof (cases "playlist_cur h - 1 = j")
    case True
    have z: "fst p = 0"
      using files_new_player_status(1) [OF p] "1.prems"(5) True
      by (simp add: opens) (simp add: h1_def)
    have "files_play_prev_loop e h = Done (snd p)"
      using files_play_prev_loop_found [OF ge nlt] p z by (simp add: h1_def)
    with files_new_player_status(2) [OF p z] keep True show ?thesis
      by (simp add: h1_def)
  next
    case False
    with "1.prems"(2) have lt: "j < playlist_cur h - 1"
      by simp
    have nz: "fst p \<noteq> 0"
      using files_new_player_status(1) [OF p] "1.prems"(4) lt
      by (simp add: opens) (simp add: h1_def)
    have eq: "files_play_prev_loop e h = files_play_prev_loop e (snd p)"
      using files_play_prev_loop_skip [OF ge nlt] p nz by (simp add: h1_def)
    have o2: "entry_opens e (snd p) k = entry_opens e h k" for k
      using keep by (simp add: entry_opens_def h1_def)
    have c: "j < playlist_cur (snd p)" "playlist_cur (snd p) \<le> playlist_len (snd p)"
      using keep lt "1.prems"(3) by (simp_all add: h1_def playlist_len_def)
    have f: "\<forall>k. j < k \<and> k < playlist_cur (snd p) \<longrightarrow> \<not> entry_opens e (snd p) k"
      using "1.prems"(4) keep by (simp add: o2 h1_def)
    have g: "entry_opens e (snd p) j"
      using "1.prems"(5) by (simp add: o2)
    have nlt1: "\<not> playlist_cur h1 < 0"
      using rng by simp
    from "1.IH" [OF ge h1_def nlt1 p nz "1.prems"(1) c f g] show ?thesis
      by (simp add: eq)
  qed
qed

lemma files_play_prev_loop_stops:
  assumes "0 \<le> playlist_cur h" "playlist_cur h \<le> playlist_len h"
    and "\<forall>k. 0 \<le> k \<and> k < playlist_cur h \<longrightarrow> \<not> entry_opens e h k"
  shows "\<exists>h'. files_play_prev_loop e h = Done h' \<and> STOPPED h'"
  using assms
proof (induction e h rule: files_play_prev_loop.induct)
  case (1 e h)
  define h1 where "h1 = h\<lparr>playlist_cur := playlist_cur h - 1\<rparr>"
  note ge = "1.prems"(1)
  show ?case
  proof (cases "playlist_cur h - 1 < 0")
    case True
    show ?thesis
      by (simp add: files_play_prev_loop_end [OF ge True] STOPPED_def)
  next
    case nlt: False
    have rng: "0 \<le> playlist_cur h1" "playlist_cur h1 < playlist_len h1"
      using "1.prems"(2) nlt by (simp_all add: h1_def playlist_len_def)
    from files_new_player_Done [OF rng] obtain p where p: "files_new_player e h1 = Done p"
      by blast
    note keep = files_new_player_keeps [OF p]
    have opens: "entry_opens e h1 k = entry_opens e h k" for k
      by (simp add: entry_opens_def h1_def)
    have nz: "fst p \<noteq> 0"
      using files_new_player_status(1) [OF p] "1.prems"(3) nlt
      by (simp add: opens) (simp add: h1_def)
    have eq: "files_play_prev_loop e h = files_play_prev_loop e (snd p)"
      using files_play_prev_loop_skip [OF ge nlt] p nz by (simp add: h1_def)
    have o2: "entry_opens e (snd p) k = entry_opens e h k" for k
      using keep by (simp add: entry_opens_def h1_def)
    have c: "0 \<le> playlist_cur (snd p)" "playlist_cur (snd p) \<le> playlist_len (snd p)"
      using keep nlt "1.prems"(2) by (simp_all add: h1_def playlist_len_def)
    have f: "\<forall>k. 0 \<le> k \<and> k < playlist_cur (snd p) \<longrightarrow> \<not> entry_opens e (snd p) k"
      using "1.prems"(3) keep by (simp add: o2 h1_def)
    have nlt1: "\<not> playlist_cur h1 < 0"
      using rng by simp
    from "1.IH" [OF ge h1_def nlt1 p nz c f] show ?thesis
      by (simp add: eq)
  qed
qed

lemma files_next_by_loop:
  assumes "0 \<le> playlist_cur h" "playlist_cur h < playlist_len h"
    and "files_play_next_loop e
      ((close_previous h)\<lparr>prev_stream := stream h, prev_file := file' h\<rparr>) = Done h1"
  shows "\<exists>h'. files_next e h = Done (0, h') \<and> playlist_cur h' = playlist_cur h1
    \<and> stream h' = stream h1 \<and> file' h' = file' h1"
  using assms
  by (simp add: files_next_def files_play_next_def close_previous_fields)

lemma files_prev_by_loop:
  assumes "0 \<le> playlist_cur h"
    and "files_play_prev_loop e
      ((close_previous h)\<lparr>prev_stream := stream h, prev_file := file' h\<rparr>) = Done h1"
  shows "\<exists>h'. files_prev e h = Done (0, h') \<and> playlist_cur h' = playlist_cur h1
    \<and> stream h' = stream h1 \<and> file' h' = file' h1"
  using assms
  by (simp add: files_prev_def files_play_prev_def close_previous_fields)

subsection \<open>Release of the previous pair, and runs\<close>











lemma files_add_idx: "- 1 \<le> fst (files_add e h name)"
  by (cases name) (simp_all add: files_add_def Let_def playlist_len_def)

lemma step_ok:
  assumes "handle_ok h" "step h ev = Done h'"
  shows "handle_ok h'"
proof (cases "snd ev")
  case Watcher
  with files_thread_ok [OF assms(1), of "fst ev"] assms(2) show ?thesis
    by (auto simp: step_def)
next
  case (Request u r)
  obtain e where e: "fst ev = e"
    by simp
  show ?thesis
  proof (cases u)
    case Url_playlist_add
    with Request assms(2) files_add_ok [OF assms(1), of e "Some r"] e show ?thesis
      by (auto simp: step_def files_httpd_playlist_add_def split: prod.splits if_splits)
  next
    case Url_playlist_play
    show ?thesis
    proof (cases "atoi r")
      case Fault
      with Request Url_playlist_play assms(2) show ?thesis
        by (simp add: step_def files_httpd_playlist_play_def)
    next
      case (Done i)
      show ?thesis
      proof (cases "i < 0")
        case True
        with Done Request Url_playlist_play assms show ?thesis
          by (simp add: step_def files_httpd_playlist_play_def)
      next
        case False
        then have "- 1 \<le> i"
          by simp
        from files_play_ok [OF assms(1) this, of e] False Done Request Url_playlist_play
          assms(2) e
        show ?thesis
          by (auto simp: step_def files_httpd_playlist_play_def split: if_splits)
      qed
    qed
  next
    case Url_playlist_remove
    show ?thesis
    proof (cases "atoi r")
      case Fault
      with Request Url_playlist_remove assms(2) show ?thesis
        by (simp add: step_def files_httpd_playlist_remove_def)
    next
      case (Done i)
      show ?thesis
      proof (cases "i < 0")
        case True
        with Done Request Url_playlist_remove assms show ?thesis
          by (simp add: step_def files_httpd_playlist_remove_def)
      next
        case ge: False
        show ?thesis
        proof (cases "playlist_len h \<le> i")
          case True
          then have "files_remove h i = Fault"
            by (simp add: files_remove_Fault)
          with ge Done Request Url_playlist_remove assms(2) show ?thesis
            by (simp add: step_def files_httpd_playlist_remove_def)
        next
          case False
          with ge have "0 \<le> i" "i < playlist_len h"
            by simp_all
          from files_remove_ok [OF assms(1) this] ge Done Request Url_playlist_remove assms(2)
          show ?thesis
            by (auto simp: step_def files_httpd_playlist_remove_def)
        qed
      qed
    qed
  next
    case Url_playlist_flush
    with Request assms(2) files_flush_ok [OF assms(1)] show ?thesis
      by (auto simp: step_def files_httpd_playlist_flush_def)
  next
    case Url_play
    define a where "a = (if r \<noteq> [] then files_add e h (Some r) else (- 1, h))"
    have ok: "handle_ok (snd a)"
      using files_add_ok [OF assms(1), of e "Some r"] assms(1) by (simp add: a_def)
    have idx: "- 1 \<le> fst a"
      using files_add_idx [of e h "Some r"] by (simp add: a_def)
    from files_play_ok [OF ok idx, of e] obtain q h2 where
      q: "files_play e (snd a) (fst a) = Done (q, h2)" "handle_ok h2"
      by blast
    have "files_httpd_play e h \<lparr>resource = r\<rparr> =
        (if r \<noteq> [] \<and> fst a < 0 then Done ((406, Some ''File is not supported''), snd a)
         else if q \<noteq> 0 then Done ((406, Some ''Cannot play the file''), h2)
         else Done ((200, None), h2))"
    proof (cases "r = []")
      case True
      then have "a = (- 1, h)"
        by (simp add: a_def)
      with q(1) True show ?thesis
        by (simp add: files_httpd_play_def)
    next
      case False
      then have "files_add e h (Some r) = a"
        by (simp add: a_def)
      with q(1) False show ?thesis
        by (simp add: files_httpd_play_def)
    qed
    with Request Url_play assms(2) e have "h' = snd a \<or> h' = h2"
      by (auto simp: step_def split: if_splits)
    with q(2) ok show ?thesis
      by auto
  next
    case Url_pause
    with Request assms(2) files_pause_ok [OF assms(1)] show ?thesis
      by (auto simp: step_def files_httpd_pause_def)
  next
    case Url_stop
    with Request assms(2) files_stop_ok [OF assms(1)] show ?thesis
      by (auto simp: step_def files_httpd_stop_def)
  next
    case Url_prev
    with Request assms(2) files_prev_ok [OF assms(1), of e] e show ?thesis
      by (auto simp: step_def files_httpd_prev_def)
  next
    case Url_next
    with Request assms(2) files_next_ok [OF assms(1), of e] e show ?thesis
      by (auto simp: step_def files_httpd_next_def)
  qed
qed

lemma run_ok:
  assumes "handle_ok h" "run h evs = Done h'"
  shows "handle_ok h'"
  using assms
proof (induction evs arbitrary: h)
  case Nil
  then show ?case by simp
next
  case (Cons ev evs)
  show ?case
  proof (cases "step h ev")
    case Fault
    with Cons.prems(2) show ?thesis by simp
  next
    case (Done h1)
    with Cons.prems(2) have "run h1 evs = Done h'"
      by simp
    from Cons.IH [OF step_ok [OF Cons.prems(1) Done] this] show ?thesis .
  qed
qed

subsection \<open>The examples\<close>

lemma atoi_examples:
  "atoi ''0'' = Done 0" "atoi ''1'' = Done 1" "atoi ''12'' = Done 12"
  "atoi ''-3'' = Done (- 3)" "atoi '' 7x'' = Done 7" "atoi ''abc'' = Done 0"
  "atoi ''2147483647'' = Done 2147483647" "atoi ''2147483648'' = Fault"
  "atoi ''-2147483648'' = Done (- 2147483648)" "atoi ''4294967298'' = Fault"
  by (simp_all add: atoi_def atoi_value_def INT_MIN_def INT_MAX_def isspace_def isdigit_def)


lemma example_handle_facts:
  "playlist_cur example_handle = 0" "playlist_len example_handle = 3"
  "entry_opens env_example example_handle 0"
  "\<not> entry_opens env_example example_handle 1"
  "entry_opens env_example example_handle 2"
  by (simp_all add: example_handle_def playlist_len_def entry_opens_def env_example_def)




subsection \<open>Where a run stops\<close>

text \<open>
  From a handle that satisfies the invariant, a request served alone is undefined
  only when it is a \<^verbatim>\<open>PUT /playlist/remove/\<close> of an index at or beyond the length,
  or a \<^verbatim>\<open>PUT /playlist/play/\<close> or \<^verbatim>\<open>remove/\<close> of a number that an \<^verbatim>\<open>int\<close> cannot
  hold.
\<close>

lemma step_Fault_iff:
  assumes "handle_ok h"
  shows "step h (e, ev) = Fault \<longleftrightarrow>
    (\<exists>r i. ev = Request Url_playlist_remove r \<and> atoi r = Done i \<and> playlist_len h \<le> i)
    \<or> (\<exists>r. (ev = Request Url_playlist_play r \<or> ev = Request Url_playlist_remove r)
          \<and> atoi r = Fault)"
proof (cases ev)
  case Watcher
  with files_thread_ok [OF assms, of e] show ?thesis
    by (auto simp: step_def)
next
  case (Request u r)
  show ?thesis
  proof (cases u)
    case Url_playlist_add
    with Request show ?thesis
      by (simp add: step_def files_httpd_playlist_add_def split: prod.splits)
  next
    case Url_playlist_play
    show ?thesis
    proof (cases "atoi r")
      case Fault
      with Request Url_playlist_play show ?thesis
        by (simp add: step_def files_httpd_playlist_play_def)
    next
      case (Done i)
      show ?thesis
      proof (cases "i < 0")
        case True
        with Done Request Url_playlist_play show ?thesis
          by (simp add: step_def files_httpd_playlist_play_def)
      next
        case False
        then have "- 1 \<le> i"
          by simp
        from files_play_ok [OF assms this, of e] Done False Request Url_playlist_play
        show ?thesis
          by (auto simp: step_def files_httpd_playlist_play_def split: if_splits)
      qed
    qed
  next
    case Url_playlist_remove
    have l: "0 \<le> playlist_len h"
      by (simp add: playlist_len_def)
    show ?thesis
    proof (cases "atoi r")
      case Fault
      with Request Url_playlist_remove show ?thesis
        by (simp add: step_def files_httpd_playlist_remove_def)
    next
      case (Done i)
      show ?thesis
      proof (cases "i < 0")
        case True
        with Done l Request Url_playlist_remove show ?thesis
          by (simp add: step_def files_httpd_playlist_remove_def)
      next
        case ge: False
        show ?thesis
        proof (cases "playlist_len h \<le> i")
          case True
          then have "files_remove h i = Fault"
            by (simp add: files_remove_Fault)
          with Done ge True Request Url_playlist_remove show ?thesis
            by (simp add: step_def files_httpd_playlist_remove_def)
        next
          case False
          with ge have "0 \<le> i" "i < playlist_len h"
            by simp_all
          from files_remove_ok [OF assms this] Done ge False Request Url_playlist_remove
          show ?thesis
            by (auto simp: step_def files_httpd_playlist_remove_def)
        qed
      qed
    qed
  next
    case Url_playlist_flush
    with Request show ?thesis
      by (simp add: step_def files_httpd_playlist_flush_def)
  next
    case Url_play
    define a where "a = (if r \<noteq> [] then files_add e h (Some r) else (- 1, h))"
    have ok: "handle_ok (snd a)"
      using files_add_ok [OF assms, of e "Some r"] assms by (simp add: a_def)
    have idx: "- 1 \<le> fst a"
      using files_add_idx [of e h "Some r"] by (simp add: a_def)
    from files_play_ok [OF ok idx, of e] obtain q h2 where
      q: "files_play e (snd a) (fst a) = Done (q, h2)"
      by blast
    have "files_httpd_play e h \<lparr>resource = r\<rparr> \<noteq> Fault"
    proof (cases "r = []")
      case True
      then have "a = (- 1, h)"
        by (simp add: a_def)
      with q True show ?thesis
        by (simp add: files_httpd_play_def)
    next
      case False
      then have "files_add e h (Some r) = a"
        by (simp add: a_def)
      with q False show ?thesis
        by (simp add: files_httpd_play_def)
    qed
    with Request Url_play show ?thesis
      by (simp add: step_def split: outcome.splits)
  next
    case Url_pause
    with Request show ?thesis
      by (simp add: step_def files_httpd_pause_def)
  next
    case Url_stop
    with Request show ?thesis
      by (simp add: step_def files_httpd_stop_def)
  next
    case Url_prev
    with Request files_prev_ok [OF assms, of e] show ?thesis
      by (auto simp: step_def files_httpd_prev_def)
  next
    case Url_next
    with Request files_next_ok [OF assms, of e] show ?thesis
      by (auto simp: step_def files_httpd_next_def)
  qed
qed

subsection \<open>Overlapping requests\<close>















text \<open>
  After two overlapping \<^verbatim>\<open>files_play\<close> the stream and the file of the first are in no
  slot, and stay registered and open.
\<close>

lemma example_overlap:
  "\<exists>h. interleaving (files_open None) overlap_sections = Done h
     \<and> stream h = Some 3 \<and> prev_stream h = None \<and> out_streams h = {1, 3}
     \<and> file' h = Some 2 \<and> prev_file h = None \<and> open_files h = {0, 2}"
  by (auto simp: overlap_sections_def env_example_def files_open_def files_set_config_def
      files_add_def files_stop_eq play_locked_def files_new_player_def file_open_def
      output_add_stream_def output_play_stream_def playlist_len_def
      PLAYLIST_ALLOC_SIZE_def Let_def numeral_2_eq_2 numeral_3_eq_3)

section \<open>Properties of the loop that opens the modules\<close>






section \<open>The claims\<close>

subsection \<open>C1: a module whose open fails\<close>




subsection \<open>C2: the current index stays in range\<close>

text \<open>
  C2 says that after every sequence of operations the current index is \<open>-1\<close> or an
  index of the playlist. Every operation keeps this (\<open>run_ok\<close>), and a request
  served alone is defined, as long as no entry is removed at an index at or beyond the
  length and every index fits an \<^verbatim>\<open>int\<close> (\<open>step_Fault_iff\<close>), but \<^verbatim>\<open>files_remove\<close>
  does not test its index. After \<^verbatim>\<open>PUT /playlist/add/a.mp3\<close> and
  \<^verbatim>\<open>PUT /playlist/play/0\<close> the index is 0 and the length 1;
  \<^verbatim>\<open>PUT /playlist/remove/1\<close> then frees the slot after the last entry, moves \<open>-1\<close>
  slots and decrements the length, which leaves the index 0 with a length of 0. The
  model stops there with \<open>Fault\<close>.
\<close>

theorem C2_failing_run:
  "\<exists>h. run (files_open None)
         [(env_example, Request Url_playlist_add ''a.mp3''),
          (env_example, Request Url_playlist_play ''0'')] = Done h
       \<and> playlist_cur h = 0 \<and> playlist_len h = 1
       \<and> run h [(env_example, Request Url_playlist_remove ''1'')] = Fault"
  by (simp add: env_example_def files_open_def
      files_set_config_def step_def files_httpd_playlist_add_def files_add_def
      files_httpd_playlist_play_def files_play_def files_stop_eq files_new_player_def
      file_open_def output_add_stream_def output_play_stream_def
      files_httpd_playlist_remove_def files_remove_def atoi_def atoi_value_def
      INT_MIN_def INT_MAX_def isspace_def isdigit_def
      playlist_len_def PLAYLIST_ALLOC_SIZE_def Let_def)

subsection \<open>C3: removing at an index out of range\<close>

text \<open>
  C3 says that \<^verbatim>\<open>remove\<close> of an index out of range returns a client error and leaves
  the state as it is. The handler does so for a negative index (status 400). For an
  index at or beyond the length, here 3 for a playlist of three entries, it calls
  \<^verbatim>\<open>files_remove\<close>, which has no test and reads and moves memory outside the playlist.
\<close>

theorem C3_remove_past_end:
  "files_httpd_playlist_remove env_example example_handle \<lparr>resource = ''3''\<rparr> = Fault
   \<and> files_httpd_playlist_remove env_example example_handle \<lparr>resource = ''-1''\<rparr> =
       Done ((400, Some ''Bad index''), example_handle)"
  by (simp add: example_handle_def files_httpd_playlist_remove_def files_remove_def
      atoi_def atoi_value_def INT_MIN_def INT_MAX_def isspace_def isdigit_def
      playlist_len_def Let_def)

subsection \<open>C4: adding a file that cannot be read\<close>

text \<open>
  C4 says that \<^verbatim>\<open>add\<close> skips a path that names unreadable or corrupt media. The code
  does not look at the result of \<^verbatim>\<open>file_format_parse\<close> and does not open the file:
  \<^verbatim>\<open>bad.mp3\<close>, which can neither be parsed nor opened, becomes entry 0 of the empty
  playlist, with no tags.
\<close>

theorem C4_unreadable_counterexample:
  "\<not> file_open_ok env_example ''/var/aircat/files/bad.mp3''
   \<and> file_format_parse env_example ''/var/aircat/files/bad.mp3'' = None
   \<and> files_add env_example (files_open None) (Some ''bad.mp3'') =
       (0, (files_open None)
             \<lparr>playlist := [\<lparr>filename = ''/var/aircat/files/bad.mp3'', format = None\<rparr>]\<rparr>)
   \<and> playlist (files_open None) = []"
  by (simp add: env_example_def files_add_def files_open_def files_set_config_def
      playlist_len_def PLAYLIST_ALLOC_SIZE_def Let_def)

text \<open>
  C4, amended: for every path, also one that names unreadable or corrupt media,
  \<^verbatim>\<open>add(path)\<close> appends one entry, which holds the path under the configured root and
  the tags that could be parsed, if any, and returns its index, the former length; the
  handler answers 200. The entry is passed over later, when \<^verbatim>\<open>next\<close> or \<^verbatim>\<open>prev\<close> fail
  to open it (C6).
\<close>

theorem C4_add_appends:
  "files_add e h (Some n) =
     (playlist_len h,
      h\<lparr>playlist_alloc :=
          (if playlist_len h = playlist_alloc h then playlist_alloc h + PLAYLIST_ALLOC_SIZE
           else playlist_alloc h),
        playlist := playlist h @
          [\<lparr>filename = path h @ ''/'' @ n,
            format = file_format_parse e (path h @ ''/'' @ n)\<rparr>]\<rparr>)
   \<and> files_httpd_playlist_add e h \<lparr>resource = n\<rparr> =
       Done ((200, None), snd (files_add e h (Some n)))"
proof -
  have a: "files_add e h (Some n) =
     (playlist_len h,
      h\<lparr>playlist_alloc :=
          (if playlist_len h = playlist_alloc h then playlist_alloc h + PLAYLIST_ALLOC_SIZE
           else playlist_alloc h),
        playlist := playlist h @
          [\<lparr>filename = path h @ ''/'' @ n,
            format = file_format_parse e (path h @ ''/'' @ n)\<rparr>]\<rparr>)"
    by (simp add: files_add_def Let_def playlist_len_def)
  have "\<not> playlist_len h < 0"
    by (simp add: playlist_len_def)
  then have "files_httpd_playlist_add e h \<lparr>resource = n\<rparr> =
       Done ((200, None), snd (files_add e h (Some n)))"
    by (simp add: files_httpd_playlist_add_def a)
  with a show ?thesis
    by simp
qed

subsection \<open>C5: playing at an index out of range\<close>

text \<open>
  C5: for every index greater than or equal to the length of the playlist,
  \<^verbatim>\<open>play(index)\<close> returns an error and leaves the handle as it is: \<^verbatim>\<open>files_play\<close>
  returns \<open>-1\<close>, and the handler, for a resource that \<^verbatim>\<open>atoi\<close> reads as this index,
  answers 500; and \<^verbatim>\<open>play(-1)\<close> with no current index on an empty playlist returns an
  error and leaves the handle as it is.
\<close>

theorem C5_play_out_of_range:
  "(playlist_len h \<le> index \<longrightarrow> files_play e h index = Done (- 1, h))
   \<and> (atoi r = Done index \<and> playlist_len h \<le> index \<longrightarrow>
        files_httpd_playlist_play e h \<lparr>resource = r\<rparr> =
          Done ((500, Some ''Playlist error''), h))
   \<and> (playlist h = [] \<and> playlist_cur h < 0 \<longrightarrow> files_play e h (- 1) = Done (- 1, h))"
proof -
  have a: "files_play e h i = Done (- 1, h)" if "playlist_len h \<le> i" for i
  proof -
    have "0 \<le> playlist_len h"
      by (simp add: playlist_len_def)
    with that have "i \<noteq> - 1"
      by auto
    with that show ?thesis
      by (simp add: files_play_def)
  qed
  have b: "files_httpd_playlist_play e h \<lparr>resource = r\<rparr> =
          Done ((500, Some ''Playlist error''), h)"
    if "atoi r = Done index" "playlist_len h \<le> index"
  proof -
    have "0 \<le> playlist_len h"
      by (simp add: playlist_len_def)
    with that(2) have "\<not> index < 0"
      by auto
    with a [OF that(2)] that(1) show ?thesis
      by (simp add: files_httpd_playlist_play_def)
  qed
  have c: "files_play e h (- 1) = Done (- 1, h)" if "playlist h = []" "playlist_cur h < 0"
    using that by (simp add: files_play_def playlist_len_def)
  from a b c show ?thesis
    by blast
qed

theorem C5_play_out_of_range_witness:
  "files_play env_example example_handle 3 = Done (- 1, example_handle)
   \<and> files_httpd_playlist_play env_example example_handle \<lparr>resource = ''3''\<rparr> =
       Done ((500, Some ''Playlist error''), example_handle)
   \<and> files_play env_example (files_open None) (- 1) = Done (- 1, files_open None)"
proof -
  have a: "playlist_len example_handle \<le> 3"
    "atoi ''3'' = Done 3 \<and> playlist_len example_handle \<le> 3"
    by (simp_all add: example_handle_facts atoi_def atoi_value_def INT_MIN_def INT_MAX_def
        isspace_def isdigit_def)
  have b: "playlist (files_open None) = [] \<and> playlist_cur (files_open None) < 0"
    by (simp add: files_open_def files_set_config_def)
  from C5_play_out_of_range [of example_handle 3 env_example "''3''"] a
    C5_play_out_of_range [of "files_open None" 0 env_example "[]"] b
  show ?thesis
    by blast
qed

subsection \<open>C6: next and prev\<close>

text \<open>
  C6: with a current index in the playlist, \<^verbatim>\<open>next\<close> at the last index and \<^verbatim>\<open>prev\<close>
  at index 0 end in STOPPED; \<^verbatim>\<open>next\<close> lands on the first later entry that opens, and
  \<^verbatim>\<open>prev\<close> on the nearest earlier entry that opens, passing over the entries between
  that fail to open; when no entry on that side opens, they end in STOPPED. (The
  playing flag is not written by either.)
\<close>

theorem C6_next_prev:
  assumes "0 \<le> playlist_cur h" "playlist_cur h < playlist_len h"
  shows "(playlist_cur h = playlist_len h - 1 \<longrightarrow>
            (\<exists>h'. files_next e h = Done (0, h') \<and> STOPPED h'))
    \<and> (playlist_cur h = 0 \<longrightarrow>
            (\<exists>h'. files_prev e h = Done (0, h') \<and> STOPPED h'))
    \<and> (\<forall>j. playlist_cur h < j \<and> j < playlist_len h \<and> entry_opens e h j
            \<and> (\<forall>k. playlist_cur h < k \<and> k < j \<longrightarrow> \<not> entry_opens e h k) \<longrightarrow>
            (\<exists>h'. files_next e h = Done (0, h') \<and> playlist_cur h' = j
               \<and> file' h' \<noteq> None))
    \<and> ((\<forall>k. playlist_cur h < k \<and> k < playlist_len h \<longrightarrow> \<not> entry_opens e h k) \<longrightarrow>
            (\<exists>h'. files_next e h = Done (0, h') \<and> STOPPED h'))
    \<and> (\<forall>j. 0 \<le> j \<and> j < playlist_cur h \<and> entry_opens e h j
            \<and> (\<forall>k. j < k \<and> k < playlist_cur h \<longrightarrow> \<not> entry_opens e h k) \<longrightarrow>
            (\<exists>h'. files_prev e h = Done (0, h') \<and> playlist_cur h' = j
               \<and> file' h' \<noteq> None))
    \<and> ((\<forall>k. 0 \<le> k \<and> k < playlist_cur h \<longrightarrow> \<not> entry_opens e h k) \<longrightarrow>
            (\<exists>h'. files_prev e h = Done (0, h') \<and> STOPPED h'))"
proof -
  let ?g = "(close_previous h)\<lparr>prev_stream := stream h, prev_file := file' h\<rparr>"
  have g: "playlist_cur ?g = playlist_cur h" "playlist_len ?g = playlist_len h"
    "\<And>k. entry_opens e ?g k = entry_opens e h k"
    by (simp_all add: close_previous_fields playlist_len_def entry_opens_def)
  have c: "- 1 \<le> playlist_cur ?g" "0 \<le> playlist_cur ?g" "playlist_cur ?g \<le> playlist_len ?g"
    using assms by (simp_all add: g)
  have next_stops: "\<exists>h'. files_next e h = Done (0, h') \<and> STOPPED h'"
    if "\<forall>k. playlist_cur h < k \<and> k < playlist_len h \<longrightarrow> \<not> entry_opens e h k"
  proof -
    from that have "\<forall>k. playlist_cur ?g < k \<and> k < playlist_len ?g \<longrightarrow> \<not> entry_opens e ?g k"
      by (simp add: g)
    from files_play_next_loop_stops [OF c(1,3) this] obtain h1 where
      h1: "files_play_next_loop e ?g = Done h1" "STOPPED h1"
      by blast
    from files_next_by_loop [OF assms h1(1)] h1(2) show ?thesis
      by (auto simp: STOPPED_def)
  qed
  have prev_stops: "\<exists>h'. files_prev e h = Done (0, h') \<and> STOPPED h'"
    if "\<forall>k. 0 \<le> k \<and> k < playlist_cur h \<longrightarrow> \<not> entry_opens e h k"
  proof -
    from that have "\<forall>k. 0 \<le> k \<and> k < playlist_cur ?g \<longrightarrow> \<not> entry_opens e ?g k"
      by (simp add: g)
    from files_play_prev_loop_stops [OF c(2,3) this] obtain h1 where
      h1: "files_play_prev_loop e ?g = Done h1" "STOPPED h1"
      by blast
    from files_prev_by_loop [OF assms(1) h1(1)] h1(2) show ?thesis
      by (auto simp: STOPPED_def)
  qed
  have next_lands: "\<exists>h'. files_next e h = Done (0, h') \<and> playlist_cur h' = j
               \<and> file' h' \<noteq> None"
    if "playlist_cur h < j" "j < playlist_len h" "entry_opens e h j"
      "\<forall>k. playlist_cur h < k \<and> k < j \<longrightarrow> \<not> entry_opens e h k" for j
  proof -
    have a: "playlist_cur ?g < j" "j < playlist_len ?g" "entry_opens e ?g j"
      "\<forall>k. playlist_cur ?g < k \<and> k < j \<longrightarrow> \<not> entry_opens e ?g k"
      using that by (simp_all add: g)
    from files_play_next_loop_lands [OF c(1) a(1,2,4,3)] obtain h1 where
      h1: "files_play_next_loop e ?g = Done h1" "playlist_cur h1 = j" "file' h1 \<noteq> None"
      by blast
    from files_next_by_loop [OF assms h1(1)] h1(2,3) show ?thesis
      by auto
  qed
  have prev_lands: "\<exists>h'. files_prev e h = Done (0, h') \<and> playlist_cur h' = j
               \<and> file' h' \<noteq> None"
    if "0 \<le> j" "j < playlist_cur h" "entry_opens e h j"
      "\<forall>k. j < k \<and> k < playlist_cur h \<longrightarrow> \<not> entry_opens e h k" for j
  proof -
    have a: "j < playlist_cur ?g" "entry_opens e ?g j"
      "\<forall>k. j < k \<and> k < playlist_cur ?g \<longrightarrow> \<not> entry_opens e ?g k"
      using that by (simp_all add: g)
    from files_play_prev_loop_lands [OF that(1) a(1) c(3) a(3,2)] obtain h1 where
      h1: "files_play_prev_loop e ?g = Done h1" "playlist_cur h1 = j" "file' h1 \<noteq> None"
      by blast
    from files_prev_by_loop [OF assms(1) h1(1)] h1(2,3) show ?thesis
      by auto
  qed
  have last: "\<exists>h'. files_next e h = Done (0, h') \<and> STOPPED h'"
    if "playlist_cur h = playlist_len h - 1"
    using that by (intro next_stops) auto
  have first: "\<exists>h'. files_prev e h = Done (0, h') \<and> STOPPED h'"
    if "playlist_cur h = 0"
    using that by (intro prev_stops) auto
  from last first next_lands next_stops prev_lands prev_stops show ?thesis
    by blast
qed

theorem C6_next_prev_witness:
  "(\<exists>h'. files_next env_example example_handle = Done (0, h') \<and> playlist_cur h' = 2
       \<and> file' h' \<noteq> None)
   \<and> (\<exists>h'. files_prev env_example example_handle = Done (0, h') \<and> STOPPED h')"
proof -
  have a: "0 \<le> playlist_cur example_handle"
    "playlist_cur example_handle < playlist_len example_handle"
    by (simp_all add: example_handle_facts)
  have k: "\<not> entry_opens env_example example_handle k" if "0 < k" "k < 2" for k :: int
  proof -
    from that have "k = 1"
      by simp
    then show ?thesis
      by (simp add: example_handle_facts)
  qed
  have b: "playlist_cur example_handle < 2 \<and> 2 < playlist_len example_handle
      \<and> entry_opens env_example example_handle 2
      \<and> (\<forall>k. playlist_cur example_handle < k \<and> k < 2 \<longrightarrow>
            \<not> entry_opens env_example example_handle k)"
    using k by (auto simp: example_handle_facts)
  have c: "playlist_cur example_handle = 0"
    by (simp add: example_handle_facts)
  from C6_next_prev [OF a, of env_example] b c show ?thesis
    by blast
qed

subsection \<open>C7: removing the current entry, or one before it\<close>

text \<open>
  C7: for an index in range that is the current index, \<^verbatim>\<open>remove(index)\<close> is
  \<^verbatim>\<open>stop()\<close> followed by the removal of that entry from the stopped handle; for an
  index in range below the current index, the current index goes down by one, the
  entry it names is the same as before, and nothing else but the playlist changes. In
  both cases the length goes down by one.
\<close>

theorem C7_remove:
  assumes "0 \<le> index" "index < playlist_len h"
  shows "(playlist_cur h = index \<longrightarrow>
            files_remove h index = files_remove (snd (files_stop h)) index
            \<and> files_remove h index =
                Done (0, (snd (files_stop h))\<lparr>playlist :=
                  take (nat index) (playlist h) @ drop (nat index + 1) (playlist h)\<rparr>))
         \<and> (index < playlist_cur h \<and> playlist_cur h < playlist_len h \<longrightarrow>
            files_remove h index =
              Done (0, h\<lparr>playlist_cur := playlist_cur h - 1, playlist :=
                  take (nat index) (playlist h) @ drop (nat index + 1) (playlist h)\<rparr>)
            \<and> (take (nat index) (playlist h) @ drop (nat index + 1) (playlist h))
                  ! nat (playlist_cur h - 1) = playlist h ! nat (playlist_cur h))
         \<and> int (length (take (nat index) (playlist h) @ drop (nat index + 1) (playlist h)))
              = playlist_len h - 1"
proof -
  let ?rest = "take (nat index) (playlist h) @ drop (nat index + 1) (playlist h)"
  have n: "nat index < length (playlist h)"
    using assms by (simp add: playlist_len_def)
  have ge: "\<not> index < 0" "\<not> playlist_len h \<le> index"
    using assms by simp_all
  have b: "files_remove (snd (files_stop h)) index =
             Done (0, (snd (files_stop h))\<lparr>playlist := ?rest\<rparr>)"
  proof -
    have "playlist_cur (snd (files_stop h)) \<noteq> index"
      "\<not> index < playlist_cur (snd (files_stop h))"
      "playlist_len (snd (files_stop h)) = playlist_len h"
      using assms(1) by (simp_all add: files_stop_fields playlist_len_def)
    then show ?thesis
      using ge by (simp add: files_remove_def files_stop_fields)
  qed
  have a: "files_remove h index = Done (0, (snd (files_stop h))\<lparr>playlist := ?rest\<rparr>)"
    if "playlist_cur h = index"
  proof -
    have "playlist_len (snd (files_stop h)) = playlist_len h"
      by (simp add: files_stop_fields playlist_len_def)
    then show ?thesis
      using that ge
      by (simp add: files_remove_def files_stop_again files_stop_fields playlist_len_def)
  qed
  have c: "files_remove h index =
             Done (0, h\<lparr>playlist_cur := playlist_cur h - 1, playlist := ?rest\<rparr>)"
    if "index < playlist_cur h"
    using that ge by (simp add: files_remove_def playlist_len_def)
  have d: "?rest ! nat (playlist_cur h - 1) = playlist h ! nat (playlist_cur h)"
    if "index < playlist_cur h" "playlist_cur h < playlist_len h"
  proof -
    define i where "i = nat index"
    define c where "c = nat (playlist_cur h)"
    have "i < c" "c < length (playlist h)"
      using that assms by (simp_all add: i_def c_def playlist_len_def)
    then have "(take i (playlist h) @ drop (i + 1) (playlist h)) ! (c - 1) = playlist h ! c"
      by (simp add: nth_append min_def)
    moreover have "nat (playlist_cur h - 1) = c - 1"
      by (simp add: c_def)
    ultimately show ?thesis
      by (simp add: i_def c_def)
  qed
  have e: "int (length ?rest) = playlist_len h - 1"
    using n by (simp add: playlist_len_def)
  from a b c d e show ?thesis
    by simp
qed

theorem C7_remove_witness:
  "files_remove (example_handle\<lparr>playlist_cur := 2\<rparr>) 1 =
     Done (0, example_handle\<lparr>playlist_cur := 1,
       playlist := [playlist example_handle ! 0, playlist example_handle ! 2]\<rparr>)
   \<and> files_remove example_handle 0 = files_remove (snd (files_stop example_handle)) 0"
proof -
  have a: "(0::int) \<le> 1" "1 < playlist_len (example_handle\<lparr>playlist_cur := 2\<rparr>)"
    "(0::int) \<le> 0" "0 < playlist_len example_handle"
    by (simp_all add: example_handle_def playlist_len_def)
  have b: "1 < playlist_cur (example_handle\<lparr>playlist_cur := 2\<rparr>)
      \<and> playlist_cur (example_handle\<lparr>playlist_cur := 2\<rparr>)
          < playlist_len (example_handle\<lparr>playlist_cur := 2\<rparr>)"
    "playlist_cur example_handle = 0"
    by (simp_all add: example_handle_def playlist_len_def)
  from C7_remove [OF a(1,2)] b(1)
  have "files_remove (example_handle\<lparr>playlist_cur := 2\<rparr>) 1 =
     Done (0, example_handle\<lparr>playlist_cur := 2, playlist_cur := 2 - 1,
       playlist := take (nat 1) (playlist example_handle)
         @ drop (nat 1 + 1) (playlist example_handle)\<rparr>)"
    by simp
  moreover from C7_remove [OF a(3,4)] b(2)
  have "files_remove example_handle 0 = files_remove (snd (files_stop example_handle)) 0"
    by simp
  ultimately show ?thesis
    by (simp add: example_handle_def)
qed

subsection \<open>C8: one previous pair, released before it is overwritten\<close>



subsection \<open>C9: stop\<close>

text \<open>
  C9: in every state \<^verbatim>\<open>stop()\<close> empties the current and the previous slot, removes
  their streams from the output and closes their files, clears the playing flag and
  sets the current index to \<open>-1\<close>; a second \<^verbatim>\<open>stop()\<close> changes nothing more.
\<close>

theorem C9_stop:
  "stream (snd (files_stop h)) = None \<and> prev_stream (snd (files_stop h)) = None
   \<and> file' (snd (files_stop h)) = None \<and> prev_file (snd (files_stop h)) = None
   \<and> out_streams (snd (files_stop h)) =
        out_streams h - set_option (stream h) - set_option (prev_stream h)
   \<and> open_files (snd (files_stop h)) =
        open_files h - set_option (file' h) - set_option (prev_file h)
   \<and> is_playing (snd (files_stop h)) = False
   \<and> playlist_cur (snd (files_stop h)) = - 1
   \<and> playlist (snd (files_stop h)) = playlist h
   \<and> files_stop (snd (files_stop h)) = files_stop h"
proof -
  have "files_stop (snd (files_stop h)) = files_stop h"
    by (subst (1 3) files_stop_eq) (simp add: files_stop_fields)
  then show ?thesis
    by (simp add: files_stop_fields)
qed

subsection \<open>C10: playing an entry that fails to open\<close>

text \<open>
  C10: for an index in range whose entry fails to open, \<^verbatim>\<open>play(index)\<close> returns an
  error and leaves the engine stopped: no current index, both slots empty, the playing
  flag clear, the streams of the former playback removed from the output and its files
  closed (as is the file that was just allocated). The playlist is unchanged.
\<close>

theorem C10_play_open_fails:
  assumes "0 \<le> index" "index < playlist_len h"
    and "\<not> file_open_ok e (filename (playlist h ! nat index))"
  shows "\<exists>h'. files_play e h index = Done (- 1, h')
    \<and> playlist_cur h' = - 1 \<and> stream h' = None \<and> file' h' = None
    \<and> prev_stream h' = None \<and> prev_file h' = None \<and> is_playing h' = False
    \<and> out_streams h' = out_streams h - set_option (stream h) - set_option (prev_stream h)
    \<and> open_files h' =
         open_files h - set_option (file' h) - set_option (prev_file h) - {next_ptr h}
    \<and> playlist h' = playlist h"
proof -
  let ?g = "(snd (files_stop h))\<lparr>playlist_cur := index\<rparr>"
  have g: "0 \<le> playlist_cur ?g" "playlist_cur ?g < playlist_len ?g"
    "\<not> entry_opens e ?g (playlist_cur ?g)"
    using assms by (simp_all add: playlist_len_def entry_opens_def files_stop_fields)
  have i: "index \<noteq> - 1" "\<not> playlist_len h \<le> index"
    using assms by auto
  show ?thesis
    by (simp add: files_play_def i files_new_player_open_fails [OF g] files_stop_fields)
qed

theorem C10_play_open_fails_witness:
  "\<exists>h'. files_play env_example example_handle 1 = Done (- 1, h')
    \<and> playlist_cur h' = - 1 \<and> stream h' = None \<and> file' h' = None
    \<and> prev_stream h' = None \<and> prev_file h' = None \<and> is_playing h' = False
    \<and> out_streams h' = {} \<and> open_files h' = {}"
proof -
  have a: "(0::int) \<le> 1" "1 < playlist_len example_handle"
    "\<not> file_open_ok env_example (filename (playlist example_handle ! nat 1))"
    by (simp_all add: example_handle_def playlist_len_def env_example_def)
  from C10_play_open_fails [OF a] show ?thesis
    by (auto simp: example_handle_def)
qed

end
